theory Spec2Isabelle
  imports Main
begin

section \<open>redox::Buffer: a growable, exclusively owned array over raw storage\<close>

text \<open>
  The development embeds \<^verbatim>\<open>core/buffer.h\<close> (class template \<^verbatim>\<open>redox::Buffer\<close>).
  Raw storage is an explicit store of blocks, every allocator call, growth-policy call,
  placement construction and destructor call is recorded in a trace, and C++ undefined
  behaviour (a null or dangling dereference, a write outside the allocated block, the use
  of an object that does not exist) is the result \<open>Undefined\<close>. Sizes, capacities and
  indices (\<^verbatim>\<open>std::size_t\<close>) are natural numbers: the class compares and assigns them and
  increments \<^verbatim>\<open>_size\<close>, which stays below a capacity the allocator has granted, so no
  operation modelled here can wrap. Element constructors, moves and destructors do not
  throw.
\<close>

subsection \<open>Storage, events and results\<close>

type_synonym addr = nat

datatype ptr = Null | Ptr addr

text \<open>
  One element-sized slot of a storage block. \<open>Raw\<close> is storage without an object
  (never constructed, or destructed); \<open>Live v\<close> is a constructed object of value \<open>v\<close>;
  \<open>MovedFrom\<close> is a constructed object whose value has been moved out (it still awaits
  its destructor); \<open>Partial\<close> is storage of which \<^verbatim>\<open>memcpy\<close> has overwritten only some
  of the bytes.
\<close>

datatype 'a slot = Raw | Live 'a | MovedFrom | Partial

datatype event =
    Allocate nat addr
  | AllocateFailed nat
  | AllocateNull nat
  | Deallocate ptr
  | Grow nat
  | Construct addr nat
  | Relocate addr nat addr nat
  | Memcpy ptr nat
  | Destruct addr nat

record 'a world =
  heap :: "'a slot list option list"
  trace :: "event list"

definition lookup :: "'a world \<Rightarrow> addr \<Rightarrow> 'a slot list option" where
  "lookup w a = (if a < length (heap w) then heap w ! a else None)"

definition store :: "addr \<Rightarrow> 'a slot list \<Rightarrow> 'a world \<Rightarrow> 'a world" where
  "store a blk w = w\<lparr>heap := (heap w)[a := Some blk]\<rparr>"

definition emit :: "event \<Rightarrow> 'a world \<Rightarrow> 'a world" where
  "emit e w = w\<lparr>trace := trace w @ [e]\<rparr>"

datatype error = AllocationFailure | OutOfBounds

datatype ('r, 's) result = Return 'r 's | Throw error 's | Undefined

subsection \<open>Template parameters and build configuration\<close>

text \<open>
  What an allocator does with a request: it grants storage, it raises, or it returns the
  null pointer.
\<close>

datatype alloc_outcome = Grants | Throws | ReturnsNull

text \<open>
  \<open>alloc\<close> stands for the \<^verbatim>\<open>Allocator\<close> template argument, \<open>growth\<close> for the
  \<^verbatim>\<open>GrowthPolicy\<close> function object, \<open>trivially_destructible\<close>, \<open>default_value\<close> and
  \<open>sizeof_value\<close> for \<^verbatim>\<open>std::is_trivially_destructible_v<ValueType>\<close>,
  \<^verbatim>\<open>ValueType()\<close> and \<^verbatim>\<open>sizeof(ValueType)\<close>, and \<open>rdx_debug\<close> for the macro
  \<^verbatim>\<open>RDX_DEBUG\<close>.
\<close>

record 'a config =
  alloc :: "'a world \<Rightarrow> nat \<Rightarrow> alloc_outcome"
  growth :: "nat \<Rightarrow> nat"
  trivially_destructible :: bool
  default_value :: 'a
  sizeof_value :: nat
  rdx_debug :: bool

text \<open>
  Modelled from the spec: the allocator capability (\<^verbatim>\<open>core/allocation/default_allocator.h\<close>
  is not among the sources). \<^verbatim>\<open>allocate(count)\<close> yields raw storage for \<open>count\<close>
  elements, here a block no earlier allocation shares, or fails; how it fails is the
  allocator's own contract, an exception or the null pointer, and \<open>alloc\<close> decides which
  of the three happens. \<^verbatim>\<open>deallocate(storage)\<close> releases a block obtained from
  \<^verbatim>\<open>allocate\<close>; on the null pointer it does nothing, and on any other pointer it is
  undefined.
\<close>

definition allocate :: "'a config \<Rightarrow> nat \<Rightarrow> 'a world \<Rightarrow> (ptr, 'a world) result" where
  "allocate C n w =
     (case alloc C w n of
        Grants \<Rightarrow>
          Return (Ptr (length (heap w)))
            (emit (Allocate n (length (heap w))) (w\<lparr>heap := heap w @ [Some (replicate n Raw)]\<rparr>))
      | Throws \<Rightarrow> Throw AllocationFailure (emit (AllocateFailed n) w)
      | ReturnsNull \<Rightarrow> Return Null (emit (AllocateNull n) w))"

definition deallocate :: "ptr \<Rightarrow> 'a world \<Rightarrow> 'a world option" where
  "deallocate p w =
     (case p of
        Null \<Rightarrow> Some (emit (Deallocate Null) w)
      | Ptr a \<Rightarrow>
          (case lookup w a of
             None \<Rightarrow> None
           | Some blk \<Rightarrow> Some (emit (Deallocate (Ptr a)) (w\<lparr>heap := (heap w)[a := None]\<rparr>))))"

subsection \<open>Operations on single slots\<close>

text \<open>\<^verbatim>\<open>new (p + i) ValueType(v)\<close>: construct an object of value \<open>v\<close> in slot \<open>i\<close> of \<open>p\<close>.\<close>

definition placement_new :: "ptr \<Rightarrow> nat \<Rightarrow> 'a \<Rightarrow> 'a world \<Rightarrow> 'a world option" where
  "placement_new p i v w =
     (case p of
        Null \<Rightarrow> None
      | Ptr a \<Rightarrow>
          (case lookup w a of
             None \<Rightarrow> None
           | Some blk \<Rightarrow>
               if i < length blk then Some (emit (Construct a i) (store a (blk[i := Live v]) w))
               else None))"

text \<open>The state a move constructor leaves its argument in, and the object it builds.\<close>

fun moved_out :: "'a slot \<Rightarrow> 'a slot" where
  "moved_out (Live v) = MovedFrom"
| "moved_out s = s"

text \<open>
  \<^verbatim>\<open>new (dest + i) ValueType(std::move(src[i]))\<close>. The source slot must hold an object;
  the destination is a block of its own.
\<close>

definition move_construct :: "ptr \<Rightarrow> ptr \<Rightarrow> nat \<Rightarrow> 'a world \<Rightarrow> 'a world option" where
  "move_construct src dest i w =
     (case src of
        Null \<Rightarrow> None
      | Ptr a \<Rightarrow>
          (case dest of
             Null \<Rightarrow> None
           | Ptr d \<Rightarrow>
               (case (lookup w a, lookup w d) of
                  (Some sb, Some db) \<Rightarrow>
                    if a \<noteq> d \<and> i < length sb \<and> i < length db \<and> sb ! i \<noteq> Raw \<and> sb ! i \<noteq> Partial
                    then Some (emit (Relocate a i d i)
                                 (store d (db[i := sb ! i]) (store a (sb[i := moved_out (sb ! i)]) w)))
                    else None
                | _ \<Rightarrow> None)))"

text \<open>
  \<^verbatim>\<open>push\<close> and \<^verbatim>\<open>emplace\<close> take their argument by reference and read it when the new
  element is constructed. \<open>Val v\<close> is a reference to an object outside the storage the
  buffers manage (a local variable, a temporary, the array of an initializer list) that
  holds the value \<open>v\<close>; \<open>At a j\<close> is a reference to slot \<open>j\<close> of block \<open>a\<close>, as
  \<^verbatim>\<open>operator[]\<close> returns it. \<open>Copy\<close> and \<open>Move\<close> say which constructor the reference
  selects: an lvalue the copy constructor, an rvalue the move constructor.
\<close>

datatype 'a operand = Val 'a | At addr nat

datatype mode = Copy | Move

text \<open>
  \<^verbatim>\<open>new (p + i) ValueType(std::forward<T>(element))\<close>. A referenced slot must hold an
  object and must not be the slot under construction; the move constructor leaves it
  moved-from.
\<close>

definition construct_from :: "mode \<Rightarrow> ptr \<Rightarrow> nat \<Rightarrow> 'a operand \<Rightarrow> 'a world \<Rightarrow> 'a world option" where
  "construct_from m p i x w =
     (case x of
        Val v \<Rightarrow> placement_new p i v w
      | At a j \<Rightarrow>
          (case lookup w a of
             None \<Rightarrow> None
           | Some sb \<Rightarrow>
               if j < length sb \<and> sb ! j \<noteq> Raw \<and> sb ! j \<noteq> Partial \<and> (p \<noteq> Ptr a \<or> i \<noteq> j)
               then (let w1 = (case m of Copy \<Rightarrow> w | Move \<Rightarrow> store a (sb[j := moved_out (sb ! j)]) w)
                     in case p of
                          Null \<Rightarrow> None
                        | Ptr d \<Rightarrow>
                            (case lookup w1 d of
                               None \<Rightarrow> None
                             | Some db \<Rightarrow>
                                 if i < length db
                                 then Some (emit (Construct d i) (store d (db[i := sb ! j]) w1))
                                 else None))
               else None))"

text \<open>\<^verbatim>\<open>c.~ValueType()\<close> on slot \<open>i\<close> of \<open>p\<close>: the slot must hold an object.\<close>

definition destruct_at :: "ptr \<Rightarrow> nat \<Rightarrow> 'a world \<Rightarrow> 'a world option" where
  "destruct_at p i w =
     (case p of
        Null \<Rightarrow> None
      | Ptr a \<Rightarrow>
          (case lookup w a of
             None \<Rightarrow> None
           | Some blk \<Rightarrow>
               if i < length blk \<and> blk ! i \<noteq> Raw \<and> blk ! i \<noteq> Partial
               then Some (emit (Destruct a i) (store a (blk[i := Raw]) w))
               else None))"

subsection \<open>The class\<close>

text \<open>
  The members \<^verbatim>\<open>_data\<close>, \<^verbatim>\<open>_reserved\<close> and \<^verbatim>\<open>_size\<close>. The accessors
  \<^verbatim>\<open>data()\<close> and \<^verbatim>\<open>begin()\<close> return \<^verbatim>\<open>_data\<close>, \<^verbatim>\<open>capacity()\<close> returns
  \<^verbatim>\<open>_reserved\<close>, \<^verbatim>\<open>size()\<close> returns \<^verbatim>\<open>_size\<close>, and \<^verbatim>\<open>end()\<close> is
  \<^verbatim>\<open>_data + _size\<close>.
\<close>

record buffer =
  m_data :: ptr
  m_reserved :: nat
  m_size :: nat

text \<open>\<^verbatim>\<open>Buffer() : _data(nullptr), _reserved(0), _size(0) {}\<close>\<close>

definition Buffer :: buffer where
  "Buffer = \<lparr>m_data = Null, m_reserved = 0, m_size = 0\<rparr>"

text \<open>\<^verbatim>\<open>_dealloc\<close>\<close>

definition dealloc :: "buffer \<Rightarrow> 'a world \<Rightarrow> 'a world option" where
  "dealloc b w = deallocate (m_data b) w"

text \<open>
  \<^verbatim>\<open>_destruct\<close>: the range-based loop runs from \<^verbatim>\<open>begin()\<close>, which is \<^verbatim>\<open>_data\<close>, to
  \<^verbatim>\<open>end()\<close>, which is \<^verbatim>\<open>_data + _size\<close>.
\<close>

function destruct_loop :: "ptr \<Rightarrow> nat \<Rightarrow> nat \<Rightarrow> 'a world \<Rightarrow> 'a world option" where
  "destruct_loop p elm n w =
     (if elm < n
      then (case destruct_at p elm w of
              None \<Rightarrow> None
            | Some w' \<Rightarrow> destruct_loop p (Suc elm) n w')
      else Some w)"
  by pat_completeness auto
termination
  by (relation "measure (\<lambda>(p, elm, n, w). n - elm)") auto

declare destruct_loop.simps [simp del]

definition destruct :: "'a config \<Rightarrow> buffer \<Rightarrow> 'a world \<Rightarrow> 'a world option" where
  "destruct C b w =
     (if \<not> trivially_destructible C then destruct_loop (m_data b) 0 (m_size b) w else Some w)"

text \<open>The relocation loop of \<^verbatim>\<open>_realloc\<close>.\<close>

function move_loop :: "ptr \<Rightarrow> ptr \<Rightarrow> nat \<Rightarrow> nat \<Rightarrow> 'a world \<Rightarrow> 'a world option" where
  "move_loop src dest elm n w =
     (if elm < n
      then (case move_construct src dest elm w of
              None \<Rightarrow> None
            | Some w' \<Rightarrow> move_loop src dest (Suc elm) n w')
      else Some w)"
  by pat_completeness auto
termination
  by (relation "measure (\<lambda>(src, dest, elm, n, w). n - elm)") auto

declare move_loop.simps [simp del]

text \<open>
  \<^verbatim>\<open>_realloc\<close>: it reads the members and returns the new storage; it assigns nothing and
  does not test what \<^verbatim>\<open>allocate\<close> returned.
\<close>

definition realloc :: "'a config \<Rightarrow> nat \<Rightarrow> buffer \<Rightarrow> 'a world \<Rightarrow> (ptr, 'a world) result" where
  "realloc C n b w =
     (case allocate C n w of
        Throw e w' \<Rightarrow> Throw e w'
      | Undefined \<Rightarrow> Undefined
      | Return dest w1 \<Rightarrow>
          (case move_loop (m_data b) dest 0 (m_size b) w1 of
             None \<Rightarrow> Undefined
           | Some w2 \<Rightarrow>
               (case destruct C b w2 of
                  None \<Rightarrow> Undefined
                | Some w3 \<Rightarrow>
                    (case dealloc b w3 of
                       None \<Rightarrow> Undefined
                     | Some w4 \<Rightarrow> Return dest w4))))"

definition reserve :: "'a config \<Rightarrow> nat \<Rightarrow> buffer \<Rightarrow> 'a world \<Rightarrow> (unit, buffer \<times> 'a world) result" where
  "reserve C n b w =
     (if n > m_reserved b
      then (case realloc C n b w of
              Throw e w' \<Rightarrow> Throw e (b, w')
            | Undefined \<Rightarrow> Undefined
            | Return dest w' \<Rightarrow> Return () (b\<lparr>m_data := dest, m_reserved := n\<rparr>, w'))
      else Return () (b, w))"

text \<open>\<^verbatim>\<open>_grow_if_needed\<close>: the policy object is called with \<^verbatim>\<open>_size\<close>.\<close>

definition grow_if_needed :: "'a config \<Rightarrow> buffer \<Rightarrow> 'a world \<Rightarrow> (unit, buffer \<times> 'a world) result" where
  "grow_if_needed C b w =
     (if m_size b = m_reserved b
      then reserve C (growth C (m_size b)) b (emit (Grow (m_size b)) w)
      else Return () (b, w))"

text \<open>
  \<^verbatim>\<open>_push_no_checks\<close> and \<^verbatim>\<open>_emplace_no_checks\<close>:
  \<^verbatim>\<open>new (_data + _size++) ValueType(std::forward<T>(element))\<close>. Both take forwarding
  references: the argument is read here, when the object is constructed.
\<close>

definition push_no_checks :: "mode \<Rightarrow> 'a operand \<Rightarrow> buffer \<Rightarrow> 'a world
    \<Rightarrow> (unit, buffer \<times> 'a world) result" where
  "push_no_checks m element b w =
     (case construct_from m (m_data b) (m_size b) element w of
        None \<Rightarrow> Undefined
      | Some w' \<Rightarrow> Return () (b\<lparr>m_size := m_size b + 1\<rparr>, w'))"

definition emplace_no_checks :: "mode \<Rightarrow> 'a operand \<Rightarrow> buffer \<Rightarrow> 'a world
    \<Rightarrow> (unit, buffer \<times> 'a world) result" where
  "emplace_no_checks m args b w =
     (case construct_from m (m_data b) (m_size b) args w of
        None \<Rightarrow> Undefined
      | Some w' \<Rightarrow> Return () (b\<lparr>m_size := m_size b + 1\<rparr>, w'))"

text \<open>
  \<^verbatim>\<open>push(const ValueType&)\<close>, \<^verbatim>\<open>push(ValueType&&)\<close> and \<^verbatim>\<open>emplace(Args&&...)\<close>. Each
  calls \<^verbatim>\<open>_grow_if_needed()\<close> first and hands its reference on afterwards: an argument that
  refers to an element of the buffer itself is read after the reallocation. The const
  reference selects the copy constructor, the rvalue reference, passed on by
  \<^verbatim>\<open>std::move\<close>, the move constructor; \<open>emplace\<close> forwards its argument as it got it, an
  argument outside the storage standing for the value the constructor builds.
\<close>

definition push :: "'a config \<Rightarrow> 'a operand \<Rightarrow> buffer \<Rightarrow> 'a world \<Rightarrow> (unit, buffer \<times> 'a world) result" where
  "push C element b w =
     (case grow_if_needed C b w of
        Throw e s \<Rightarrow> Throw e s
      | Undefined \<Rightarrow> Undefined
      | Return u (b', w') \<Rightarrow> push_no_checks Copy element b' w')"

definition push_rvalue :: "'a config \<Rightarrow> 'a operand \<Rightarrow> buffer \<Rightarrow> 'a world
    \<Rightarrow> (unit, buffer \<times> 'a world) result" where
  "push_rvalue C element b w =
     (case grow_if_needed C b w of
        Throw e s \<Rightarrow> Throw e s
      | Undefined \<Rightarrow> Undefined
      | Return u (b', w') \<Rightarrow> push_no_checks Move element b' w')"

definition emplace :: "'a config \<Rightarrow> mode \<Rightarrow> 'a operand \<Rightarrow> buffer \<Rightarrow> 'a world
    \<Rightarrow> (unit, buffer \<times> 'a world) result" where
  "emplace C m args b w =
     (case grow_if_needed C b w of
        Throw e s \<Rightarrow> Throw e s
      | Undefined \<Rightarrow> Undefined
      | Return u (b', w') \<Rightarrow> emplace_no_checks m args b' w')"

text \<open>\<^verbatim>\<open>clear\<close>: \<^verbatim>\<open>_size = 0;\<close> comes first, \<^verbatim>\<open>_destruct();\<close> second.\<close>

definition clear :: "'a config \<Rightarrow> buffer \<Rightarrow> 'a world \<Rightarrow> (unit, buffer \<times> 'a world) result" where
  "clear C b w =
     (let b' = b\<lparr>m_size := 0\<rparr>
      in case destruct C b' w of
           None \<Rightarrow> Undefined
         | Some w' \<Rightarrow> Return () (b', w'))"

text \<open>\<^verbatim>\<open>~Buffer\<close>: \<^verbatim>\<open>_destruct(); _dealloc();\<close>. The object is gone afterwards.\<close>

definition destructor :: "'a config \<Rightarrow> buffer \<Rightarrow> 'a world \<Rightarrow> (unit, 'a world) result" where
  "destructor C b w =
     (case destruct C b w of
        None \<Rightarrow> Undefined
      | Some w' \<Rightarrow>
          (case dealloc b w' of
             None \<Rightarrow> Undefined
           | Some w'' \<Rightarrow> Return () w''))"

text \<open>The slots of the iteration range \<^verbatim>\<open>[begin(), end())\<close>.\<close>

definition elements :: "buffer \<Rightarrow> 'a world \<Rightarrow> 'a slot list" where
  "elements b w =
     (case m_data b of
        Null \<Rightarrow> []
      | Ptr a \<Rightarrow> (case lookup w a of None \<Rightarrow> [] | Some blk \<Rightarrow> take (m_size b) blk))"

text \<open>
  \<^verbatim>\<open>operator[]\<close>, mutable and const: the same body twice. The reference returned is the
  pair of the block and the position; binding a reference needs the slot to exist.
\<close>

definition index_op :: "'a config \<Rightarrow> nat \<Rightarrow> buffer \<Rightarrow> 'a world \<Rightarrow> (addr \<times> nat, buffer \<times> 'a world) result" where
  "index_op C index b w =
     (if rdx_debug C \<and> index \<ge> m_size b then Throw OutOfBounds (b, w)
      else (case m_data b of
              Null \<Rightarrow> Undefined
            | Ptr a \<Rightarrow>
                (case lookup w a of
                   None \<Rightarrow> Undefined
                 | Some blk \<Rightarrow> if index < length blk then Return (a, index) (b, w) else Undefined)))"

definition index_op_const :: "'a config \<Rightarrow> nat \<Rightarrow> buffer \<Rightarrow> 'a world \<Rightarrow> (addr \<times> nat, buffer \<times> 'a world) result" where
  "index_op_const C index b w =
     (if rdx_debug C \<and> index \<ge> m_size b then Throw OutOfBounds (b, w)
      else (case m_data b of
              Null \<Rightarrow> Undefined
            | Ptr a \<Rightarrow>
                (case lookup w a of
                   None \<Rightarrow> Undefined
                 | Some blk \<Rightarrow> if index < length blk then Return (a, index) (b, w) else Undefined)))"

text \<open>What a reference designates.\<close>

definition deref :: "'a world \<Rightarrow> addr \<times> nat \<Rightarrow> 'a slot option" where
  "deref w r =
     (case lookup w (fst r) of
        None \<Rightarrow> None
      | Some blk \<Rightarrow> if snd r < length blk then Some (blk ! snd r) else None)"

text \<open>The loop of \<^verbatim>\<open>resize\<close>: \<^verbatim>\<open>new (_data + elm) ValueType()\<close> for \<open>elm\<close> from \<^verbatim>\<open>_size\<close>.\<close>

function construct_loop :: "'a \<Rightarrow> ptr \<Rightarrow> nat \<Rightarrow> nat \<Rightarrow> 'a world \<Rightarrow> 'a world option" where
  "construct_loop d p elm n w =
     (if elm < n
      then (case placement_new p elm d w of
              None \<Rightarrow> None
            | Some w' \<Rightarrow> construct_loop d p (Suc elm) n w')
      else Some w)"
  by pat_completeness auto
termination
  by (relation "measure (\<lambda>(d, p, elm, n, w). n - elm)") auto

declare construct_loop.simps [simp del]

definition resize :: "'a config \<Rightarrow> nat \<Rightarrow> buffer \<Rightarrow> 'a world \<Rightarrow> (unit, buffer \<times> 'a world) result" where
  "resize C n b w =
     (case reserve C n b w of
        Throw e s \<Rightarrow> Throw e s
      | Undefined \<Rightarrow> Undefined
      | Return u (b1, w1) \<Rightarrow>
          (case construct_loop (default_value C) (m_data b1) (m_size b1) n w1 of
             None \<Rightarrow> Undefined
           | Some w2 \<Rightarrow> Return () (b1\<lparr>m_size := n\<rparr>, w2)))"

text \<open>
  \<^verbatim>\<open>std::memcpy(dst, src, n)\<close> copies \<open>n\<close> bytes. An element occupies \<open>sz\<close> bytes, so the
  copy covers \<open>n div sz\<close> whole elements and \<open>n mod sz\<close> bytes of the one after them. The
  source is given as the elements readable at \<open>src\<close>. Copying no byte at all leaves the
  storage alone whatever the pointers are.
\<close>

definition memcpy :: "nat \<Rightarrow> ptr \<Rightarrow> 'a list \<Rightarrow> nat \<Rightarrow> 'a world \<Rightarrow> 'a world option" where
  "memcpy sz dst src n w =
     (if n = 0 then Some (emit (Memcpy dst 0) w)
      else (case dst of
              Null \<Rightarrow> None
            | Ptr a \<Rightarrow>
                (case lookup w a of
                   None \<Rightarrow> None
                 | Some blk \<Rightarrow>
                     (let whole = n div sz;
                          touched = (if n mod sz = 0 then whole else whole + 1)
                      in if sz = 0 \<or> touched > length blk \<or> touched > length src then None
                         else Some (emit (Memcpy dst n)
                                (store a (map Live (take whole src)
                                          @ (if n mod sz = 0 then [] else [Partial])
                                          @ drop touched blk) w))))))"

text \<open>
  The constructors other than \<^verbatim>\<open>Buffer()\<close> delegate to it and then run a body. When the
  body exits by an exception the object, complete since the delegation, is destroyed on the
  way out: \<open>unwind\<close> runs the destructor.
\<close>

definition unwind :: "'a config \<Rightarrow> (unit, buffer \<times> 'a world) result \<Rightarrow> (unit, buffer \<times> 'a world) result" where
  "unwind C r =
     (case r of
        Throw e (b, w) \<Rightarrow>
          (case destructor C b w of
             Return u w' \<Rightarrow> Throw e (b, w')
           | Throw e' w' \<Rightarrow> Undefined
           | Undefined \<Rightarrow> Undefined)
      | Return u s \<Rightarrow> Return u s
      | Undefined \<Rightarrow> Undefined)"

text \<open>\<^verbatim>\<open>Buffer(size_type size) : Buffer() { resize(size); }\<close>\<close>

definition Buffer_sized :: "'a config \<Rightarrow> nat \<Rightarrow> 'a world \<Rightarrow> (unit, buffer \<times> 'a world) result" where
  "Buffer_sized C n w = unwind C (resize C n Buffer w)"

text \<open>\<^verbatim>\<open>Buffer(const ValueType* start, const size_type length)\<close>\<close>

definition Buffer_range :: "'a config \<Rightarrow> 'a list \<Rightarrow> nat \<Rightarrow> 'a world \<Rightarrow> (unit, buffer \<times> 'a world) result" where
  "Buffer_range C start len w =
     unwind C
       (case reserve C len Buffer w of
          Throw e s \<Rightarrow> Throw e s
        | Undefined \<Rightarrow> Undefined
        | Return u (b1, w1) \<Rightarrow>
            (case memcpy (sizeof_value C) (m_data b1) start len w1 of
               None \<Rightarrow> Undefined
             | Some w2 \<Rightarrow> Return () (b1\<lparr>m_size := len\<rparr>, w2)))"

text \<open>\<^verbatim>\<open>Buffer(std::initializer_list<ValueType> values)\<close>\<close>

fun push_each :: "'a list \<Rightarrow> buffer \<Rightarrow> 'a world \<Rightarrow> (unit, buffer \<times> 'a world) result" where
  "push_each [] b w = Return () (b, w)"
| "push_each (v # vs) b w =
     (case push_no_checks Copy (Val v) b w of
        Throw e s \<Rightarrow> Throw e s
      | Undefined \<Rightarrow> Undefined
      | Return u (b', w') \<Rightarrow> push_each vs b' w')"

definition Buffer_list :: "'a config \<Rightarrow> 'a list \<Rightarrow> 'a world \<Rightarrow> (unit, buffer \<times> 'a world) result" where
  "Buffer_list C values w =
     unwind C
       (case reserve C (length values) Buffer w of
          Throw e s \<Rightarrow> Throw e s
        | Undefined \<Rightarrow> Undefined
        | Return u (b1, w1) \<Rightarrow> push_each values b1 w1)"

subsection \<open>Moving between objects\<close>

text \<open>
  Both move operations read and write two objects, which \<^verbatim>\<open>b = std::move(b)\<close> makes the
  same one. Objects therefore live in a store indexed by their identity, and the
  assignments happen one after the other, in the order of the source.
\<close>

type_synonym var = nat

definition move_ctor :: "var \<Rightarrow> var \<Rightarrow> (var \<Rightarrow> buffer) \<Rightarrow> (var \<Rightarrow> buffer)" where
  "move_ctor this ref s0 =
     (let s1 = s0(this := \<lparr>m_data = m_data (s0 ref), m_reserved = m_reserved (s0 ref),
                           m_size = m_size (s0 ref)\<rparr>);
          s2 = s1(ref := (s1 ref)\<lparr>m_data := Null\<rparr>);
          s3 = s2(ref := (s2 ref)\<lparr>m_size := 0\<rparr>);
          s4 = s3(ref := (s3 ref)\<lparr>m_reserved := 0\<rparr>)
      in s4)"

definition move_assign :: "var \<Rightarrow> var \<Rightarrow> (var \<Rightarrow> buffer) \<Rightarrow> (var \<Rightarrow> buffer)" where
  "move_assign this ref s0 =
     (let s1 = s0(this := (s0 this)\<lparr>m_data := m_data (s0 ref)\<rparr>);
          s2 = s1(this := (s1 this)\<lparr>m_size := m_size (s1 ref)\<rparr>);
          s3 = s2(this := (s2 this)\<lparr>m_reserved := m_reserved (s2 ref)\<rparr>);
          s4 = s3(ref := (s3 ref)\<lparr>m_data := Null\<rparr>);
          s5 = s4(ref := (s4 ref)\<lparr>m_size := 0\<rparr>);
          s6 = s5(ref := (s5 ref)\<lparr>m_reserved := 0\<rparr>)
      in s6)"

subsection \<open>Programs over several buffers\<close>

record 'a pstate =
  objs :: "var \<Rightarrow> buffer"
  alive :: "var set"
  wld :: "'a world"

datatype 'a command =
    NewDefault var
  | NewSized var nat
  | NewRange var "'a list" nat
  | NewList var "'a list"
  | NewMove var var
  | MoveAssign var var
  | Push var "'a operand"
  | PushRvalue var "'a operand"
  | Emplace var mode "'a operand"
  | Clear var
  | Reserve var nat
  | Resize var nat
  | Delete var

text \<open>A member function called on the live object \<open>v\<close>; after an exception the object lives on.\<close>

definition call :: "var \<Rightarrow> (buffer \<Rightarrow> 'a world \<Rightarrow> (unit, buffer \<times> 'a world) result) \<Rightarrow> 'a pstate
    \<Rightarrow> (unit, 'a pstate) result" where
  "call v f st =
     (if v \<in> alive st
      then (case f (objs st v) (wld st) of
              Return u (b, w) \<Rightarrow> Return () (st\<lparr>objs := (objs st)(v := b), wld := w\<rparr>)
            | Throw e (b, w) \<Rightarrow> Throw e (st\<lparr>objs := (objs st)(v := b), wld := w\<rparr>)
            | Undefined \<Rightarrow> Undefined)
      else Undefined)"

text \<open>A constructor run for the new object \<open>v\<close>; after an exception there is no object.\<close>

definition create :: "var \<Rightarrow> ('a world \<Rightarrow> (unit, buffer \<times> 'a world) result) \<Rightarrow> 'a pstate
    \<Rightarrow> (unit, 'a pstate) result" where
  "create v f st =
     (if v \<notin> alive st
      then (case f (wld st) of
              Return u (b, w) \<Rightarrow>
                Return () (st\<lparr>objs := (objs st)(v := b), alive := insert v (alive st), wld := w\<rparr>)
            | Throw e (b, w) \<Rightarrow> Throw e (st\<lparr>wld := w\<rparr>)
            | Undefined \<Rightarrow> Undefined)
      else Undefined)"

fun exec :: "'a config \<Rightarrow> 'a command \<Rightarrow> 'a pstate \<Rightarrow> (unit, 'a pstate) result" where
  "exec C (NewDefault v) st = create v (\<lambda>w. Return () (Buffer, w)) st"
| "exec C (NewSized v n) st = create v (Buffer_sized C n) st"
| "exec C (NewRange v start len) st = create v (Buffer_range C start len) st"
| "exec C (NewList v values) st = create v (Buffer_list C values) st"
| "exec C (NewMove v r) st =
     (if v \<notin> alive st \<and> r \<in> alive st
      then Return () (st\<lparr>objs := move_ctor v r (objs st), alive := insert v (alive st)\<rparr>)
      else Undefined)"
| "exec C (MoveAssign v r) st =
     (if v \<in> alive st \<and> r \<in> alive st
      then Return () (st\<lparr>objs := move_assign v r (objs st)\<rparr>)
      else Undefined)"
| "exec C (Push v x) st = call v (push C x) st"
| "exec C (PushRvalue v x) st = call v (push_rvalue C x) st"
| "exec C (Emplace v m x) st = call v (emplace C m x) st"
| "exec C (Clear v) st = call v (clear C) st"
| "exec C (Reserve v n) st = call v (reserve C n) st"
| "exec C (Resize v n) st = call v (resize C n) st"
| "exec C (Delete v) st =
     (if v \<in> alive st
      then (case destructor C (objs st v) (wld st) of
              Return u w \<Rightarrow> Return () (st\<lparr>alive := alive st - {v}, wld := w\<rparr>)
            | Throw e w \<Rightarrow> Throw e (st\<lparr>alive := alive st - {v}, wld := w\<rparr>)
            | Undefined \<Rightarrow> Undefined)
      else Undefined)"

text \<open>The states a program reaches: it starts with no buffer and may catch an exception and go on.\<close>

inductive reachable :: "'a config \<Rightarrow> 'a pstate \<Rightarrow> bool" for C :: "'a config" where
  start: "alive st = {} \<Longrightarrow> reachable C st"
| step: "reachable C st \<Longrightarrow> exec C c st = Return () st' \<Longrightarrow> reachable C st'"
| caught: "reachable C st \<Longrightarrow> exec C c st = Throw e st' \<Longrightarrow> reachable C st'"

text \<open>A program: commands run in sequence until one ends in an exception.\<close>

fun run :: "'a config \<Rightarrow> 'a command list \<Rightarrow> 'a pstate \<Rightarrow> (unit, 'a pstate) result" where
  "run C [] st = Return () st"
| "run C (c # cs) st =
     (case exec C c st of
        Return u st' \<Rightarrow> run C cs st'
      | Throw e st' \<Rightarrow> Throw e st'
      | Undefined \<Rightarrow> Undefined)"

text \<open>A run of insertions on one buffer, stopping at the first exception.\<close>

datatype 'a insertion = ByCopy "'a operand" | ByMove "'a operand" | InPlace mode "'a operand"

fun insert_one :: "'a config \<Rightarrow> 'a insertion \<Rightarrow> buffer \<Rightarrow> 'a world \<Rightarrow> (unit, buffer \<times> 'a world) result" where
  "insert_one C (ByCopy x) b w = push C x b w"
| "insert_one C (ByMove x) b w = push_rvalue C x b w"
| "insert_one C (InPlace m x) b w = emplace C m x b w"


fun insert_all :: "'a config \<Rightarrow> 'a insertion list \<Rightarrow> buffer \<Rightarrow> 'a world \<Rightarrow> (unit, buffer \<times> 'a world) result" where
  "insert_all C [] b w = Return () (b, w)"
| "insert_all C (i # is) b w =
     (case insert_one C i b w of
        Throw e s \<Rightarrow> Throw e s
      | Undefined \<Rightarrow> Undefined
      | Return u (b', w') \<Rightarrow> insert_all C is b' w')"

subsection \<open>Well-formed buffers\<close>

fun is_live :: "'a slot \<Rightarrow> bool" where
  "is_live (Live v) = True"
| "is_live s = False"

text \<open>
  The buffer owns a block of exactly \<^verbatim>\<open>_reserved\<close> slots whose first \<^verbatim>\<open>_size\<close> hold
  live elements, or it is empty with null storage.
\<close>

definition wf :: "buffer \<Rightarrow> 'a world \<Rightarrow> bool" where
  "wf b w =
     (m_size b \<le> m_reserved b \<and>
      (case m_data b of
         Null \<Rightarrow> m_reserved b = 0
       | Ptr a \<Rightarrow>
           (case lookup w a of
              None \<Rightarrow> False
            | Some blk \<Rightarrow>
                0 < m_reserved b \<and> length blk = m_reserved b \<and> list_all is_live (take (m_size b) blk))))"

text \<open>The two invariants of the data model that speak of the members alone.\<close>

definition invariants :: "buffer \<Rightarrow> bool" where
  "invariants b = (m_size b \<le> m_reserved b \<and> (m_data b = Null \<longleftrightarrow> m_reserved b = 0))"

text \<open>Every buffer of a program state satisfies them.\<close>

definition all_invariants :: "'a pstate \<Rightarrow> bool" where
  "all_invariants st = (\<forall>v \<in> alive st. invariants (objs st v))"

subsection \<open>Concrete instantiations\<close>

text \<open>
  \<open>doubling\<close> is the growth policy of the specification's scenario (double, at least
  four). \<open>demo\<close> is a buffer of elements with a destructor, eight bytes wide, over an
  allocator that satisfies every request; \<open>limited\<close> is the same over an allocator that
  refuses more than four slots by an exception, \<open>nulls\<close> over one that refuses them by
  returning the null pointer; \<open>halfwords\<close> is a buffer of trivially copyable elements two
  bytes wide. Element values are written as numbers. \<open>two_buffers\<close> is a program state
  with the buffers 0 and 1, each owning a block; \<open>no_buffers\<close> is the state a program
  starts in; \<open>null_reserved\<close> is the state with the one buffer 0 that \<^verbatim>\<open>reserve(6)\<close>
  leaves behind when the allocator answers with the null pointer.
\<close>

definition doubling :: "nat \<Rightarrow> nat" where
  "doubling n = max 4 (2 * n)"

definition demo :: "nat config" where
  "demo = \<lparr>alloc = (\<lambda>w n. Grants), growth = doubling, trivially_destructible = False,
           default_value = 0, sizeof_value = 8, rdx_debug = True\<rparr>"

definition limited :: "nat config" where
  "limited = demo\<lparr>alloc := (\<lambda>w n. if n \<le> 4 then Grants else Throws)\<rparr>"

definition nulls :: "nat config" where
  "nulls = demo\<lparr>alloc := (\<lambda>w n. if n \<le> 4 then Grants else ReturnsNull)\<rparr>"

definition halfwords :: "nat config" where
  "halfwords = demo\<lparr>trivially_destructible := True, sizeof_value := 2\<rparr>"

definition fresh_world :: "nat world" where
  "fresh_world = \<lparr>heap = [], trace = []\<rparr>"

definition two_buffers :: "nat pstate" where
  "two_buffers =
     \<lparr>objs = (\<lambda>v. Buffer)(0 := \<lparr>m_data = Ptr 0, m_reserved = 4, m_size = 2\<rparr>,
                            1 := \<lparr>m_data = Ptr 1, m_reserved = 2, m_size = 1\<rparr>),
      alive = {0, 1},
      wld = \<lparr>heap = [Some [Live 7, Live 8, Raw, Raw], Some [Live 9, Raw]], trace = []\<rparr>\<rparr>"

definition no_buffers :: "nat pstate" where
  "no_buffers = \<lparr>objs = (\<lambda>v. Buffer), alive = {}, wld = fresh_world\<rparr>"

definition null_reserved :: "nat pstate" where
  "null_reserved =
     \<lparr>objs = (\<lambda>v. Buffer)(0 := \<lparr>m_data = Null, m_reserved = 6, m_size = 0\<rparr>),
      alive = {0},
      wld = \<lparr>heap = [], trace = [AllocateNull 6, Deallocate Null]\<rparr>\<rparr>"

subsection \<open>Closed forms used in the proofs\<close>

text \<open>
  \<open>is_object\<close>: the slot holds an object. \<open>relocation_events\<close>: what \<^verbatim>\<open>_realloc\<close> appends
  to the trace. \<open>regrown\<close> and \<open>grown\<close>: the members and the world after a \<^verbatim>\<open>reserve\<close>
  that reallocates. \<open>placed\<close>: the world after the placement of one element at \<^verbatim>\<open>_size\<close>.
  \<open>growth_calls\<close> and \<open>allocator_calls\<close>: the growth-policy arguments and the allocator
  events of a trace. \<open>insert_with\<close>: the common body of \<open>push\<close>, \<open>push_rvalue\<close> and
  \<open>emplace\<close>.
\<close>

fun is_object :: "'a slot \<Rightarrow> bool" where
  "is_object (Live v) = True"
| "is_object MovedFrom = True"
| "is_object s = False"

definition relocation_events :: "'a config \<Rightarrow> buffer \<Rightarrow> nat \<Rightarrow> addr \<Rightarrow> event list" where
  "relocation_events C b n dest =
     Allocate n dest #
     (case m_data b of
        Null \<Rightarrow> []
      | Ptr a \<Rightarrow>
          map (\<lambda>i. Relocate a i dest i) [0..<m_size b]
          @ (if trivially_destructible C then [] else map (Destruct a) [0..<m_size b]))
     @ [Deallocate (m_data b)]"

definition grown :: "'a config \<Rightarrow> nat \<Rightarrow> buffer \<Rightarrow> 'a world \<Rightarrow> 'a world" where
  "grown C n b w =
     w\<lparr>heap := (case m_data b of Null \<Rightarrow> heap w | Ptr a \<Rightarrow> (heap w)[a := None])
                @ [Some (elements b w @ replicate (n - m_size b) Raw)],
       trace := trace w @ relocation_events C b n (length (heap w))\<rparr>"

definition regrown :: "nat \<Rightarrow> buffer \<Rightarrow> 'a world \<Rightarrow> buffer" where
  "regrown n b w = b\<lparr>m_data := Ptr (length (heap w)), m_reserved := n\<rparr>"


definition insert_with :: "'a config \<Rightarrow> mode \<Rightarrow> 'a operand \<Rightarrow> buffer \<Rightarrow> 'a world
    \<Rightarrow> (unit, buffer \<times> 'a world) result" where
  "insert_with C m x b w =
     (case grow_if_needed C b w of
        Throw e s \<Rightarrow> Throw e s
      | Undefined \<Rightarrow> Undefined
      | Return u (b', w') \<Rightarrow> push_no_checks m x b' w')"

fun growth_calls :: "event list \<Rightarrow> nat list" where
  "growth_calls [] = []"
| "growth_calls (Grow k # es) = k # growth_calls es"
| "growth_calls (e # es) = growth_calls es"

fun allocator_calls :: "event list \<Rightarrow> event list" where
  "allocator_calls [] = []"
| "allocator_calls (Allocate n a # es) = Allocate n a # allocator_calls es"
| "allocator_calls (AllocateFailed n # es) = AllocateFailed n # allocator_calls es"
| "allocator_calls (AllocateNull n # es) = AllocateNull n # allocator_calls es"
| "allocator_calls (Deallocate p # es) = Deallocate p # allocator_calls es"
| "allocator_calls (e # es) = allocator_calls es"

subsection \<open>Ownership\<close>

text \<open>
  \<open>owns\<close>: the members satisfy the two invariants and the storage pointer, when not null,
  designates an allocated block of exactly \<^verbatim>\<open>_reserved\<close> slots. \<open>consistent\<close>: every
  buffer of the program state owns its storage and no two buffers share a block.
  \<open>only A\<close> relates two worlds that differ at most in the contents of the blocks \<open>A\<close>;
  \<open>frame p\<close> relates a world to a later one in which every block other than \<open>p\<close> is
  still allocated with the length it had; \<open>step_ok\<close> is what every member function
  guarantees: the buffer owns its storage afterwards, the other blocks keep their lengths,
  and the storage pointer is the old one or designates a block allocated since.
\<close>

definition owns :: "buffer \<Rightarrow> 'a world \<Rightarrow> bool" where
  "owns b w =
     (invariants b \<and>
      (case m_data b of
         Null \<Rightarrow> True
       | Ptr a \<Rightarrow> (case lookup w a of None \<Rightarrow> False | Some blk \<Rightarrow> length blk = m_reserved b)))"

definition consistent :: "'a pstate \<Rightarrow> bool" where
  "consistent st =
     ((\<forall>v \<in> alive st. owns (objs st v) (wld st)) \<and>
      (\<forall>u \<in> alive st. \<forall>v \<in> alive st.
          u \<noteq> v \<longrightarrow> m_data (objs st u) = Null \<or> m_data (objs st u) \<noteq> m_data (objs st v)))"

definition only :: "addr set \<Rightarrow> 'a world \<Rightarrow> 'a world \<Rightarrow> bool" where
  "only A w w' =
     (length (heap w') = length (heap w) \<and>
      (\<forall>a. (a \<notin> A \<longrightarrow> lookup w' a = lookup w a)
           \<and> map_option length (lookup w' a) = map_option length (lookup w a)))"

fun addrs :: "ptr \<Rightarrow> addr set" where
  "addrs Null = {}"
| "addrs (Ptr a) = {a}"

definition frame :: "ptr \<Rightarrow> 'a world \<Rightarrow> 'a world \<Rightarrow> bool" where
  "frame p w w' =
     (length (heap w) \<le> length (heap w') \<and>
      (\<forall>a < length (heap w). Ptr a \<noteq> p \<longrightarrow>
          map_option length (lookup w' a) = map_option length (lookup w a)))"

definition step_ok :: "buffer \<Rightarrow> 'a world \<Rightarrow> buffer \<Rightarrow> 'a world \<Rightarrow> bool" where
  "step_ok b w b' w' =
     (owns b' w' \<and> frame (m_data b) w w' \<and>
      (m_data b' = m_data b \<or> (\<exists>a \<ge> length (heap w). m_data b' = Ptr a)))"

section \<open>Auxiliary facts\<close>

subsection \<open>The store\<close>

lemma lookup_emit [simp]: "lookup (emit e w) a = lookup w a"
  by (simp add: lookup_def emit_def)

lemma heap_emit [simp]: "heap (emit e w) = heap w"
  by (simp add: emit_def)

lemma trace_emit [simp]: "trace (emit e w) = trace w @ [e]"
  by (simp add: emit_def)

lemma heap_store [simp]: "heap (store a blk w) = (heap w)[a := Some blk]"
  by (simp add: store_def)

lemma trace_store [simp]: "trace (store a blk w) = trace w"
  by (simp add: store_def)

lemma lookup_store:
  "lookup (store a blk w) a' = (if a' = a \<and> a < length (heap w) then Some blk else lookup w a')"
  by (simp add: lookup_def store_def)

lemma lookup_Some_less: "lookup w a = Some blk \<Longrightarrow> a < length (heap w)"
  by (simp add: lookup_def split: if_splits)

lemma heap_update_same: "lookup w a = Some blk \<Longrightarrow> (heap w)[a := Some blk] = heap w"
  by (simp add: lookup_def list_update_same_conv split: if_splits)

subsection \<open>The loops\<close>

lemma destruct_loop_done [simp]: "n \<le> elm \<Longrightarrow> destruct_loop p elm n w = Some w"
  by (simp add: destruct_loop.simps)

lemma move_loop_done [simp]: "n \<le> elm \<Longrightarrow> move_loop p q elm n w = Some w"
  by (simp add: move_loop.simps)

lemma construct_loop_done [simp]: "n \<le> elm \<Longrightarrow> construct_loop v p elm n w = Some w"
  by (simp add: construct_loop.simps)

lemma is_object_iff: "is_object s \<longleftrightarrow> s \<noteq> Raw \<and> s \<noteq> Partial"
  by (cases s) auto

lemma is_object_moved_out [simp]: "is_object (moved_out s) = is_object s"
  by (cases s) auto

lemma is_live_is_object: "is_live s \<Longrightarrow> is_object s"
  by (cases s) auto

lemma destruct_loop_run:
  assumes "lookup w a = Some blk" "n \<le> length blk" "\<forall>i. elm \<le> i \<and> i < n \<longrightarrow> is_object (blk ! i)"
  shows "\<exists>blk'. length blk' = length blk \<and>
           destruct_loop (Ptr a) elm n w =
             Some (w\<lparr>heap := (heap w)[a := Some blk'], trace := trace w @ map (Destruct a) [elm..<n]\<rparr>)"
  using assms
proof (induction "n - elm" arbitrary: elm w blk)
  case 0
  then have "n \<le> elm" by simp
  moreover have "(heap w)[a := Some blk] = heap w"
    using 0 by (simp add: heap_update_same)
  ultimately show ?case
    by (intro exI[of _ blk]) simp
next
  case (Suc k)
  then have lt: "elm < n" by simp
  let ?w1 = "emit (Destruct a elm) (store a (blk[elm := Raw]) w)"
  have step: "destruct_at (Ptr a) elm w = Some ?w1"
    using Suc.prems lt by (simp add: destruct_at_def is_object_iff[symmetric])
  have l1: "lookup ?w1 a = Some (blk[elm := Raw])"
    using Suc.prems by (simp add: lookup_store lookup_Some_less)
  have "\<exists>blk'. length blk' = length (blk[elm := Raw]) \<and>
           destruct_loop (Ptr a) (Suc elm) n ?w1 =
             Some (?w1\<lparr>heap := (heap ?w1)[a := Some blk'], trace := trace ?w1 @ map (Destruct a) [Suc elm..<n]\<rparr>)"
    using Suc.hyps(2) Suc.prems lt by (intro Suc.hyps(1)[OF _ l1]) auto
  then obtain blk' where b: "length blk' = length blk"
    "destruct_loop (Ptr a) (Suc elm) n ?w1 =
             Some (?w1\<lparr>heap := (heap ?w1)[a := Some blk'], trace := trace ?w1 @ map (Destruct a) [Suc elm..<n]\<rparr>)"
    by auto
  show ?case
    apply (rule exI[of _ blk'])
    apply (subst destruct_loop.simps)
    using lt b step by (simp add: upt_conv_Cons emit_def store_def)
qed

lemma move_loop_run:
  assumes "lookup w a = Some sb" "lookup w d = Some db" "a \<noteq> d" "n \<le> length sb" "n \<le> length db"
    "\<forall>i. elm \<le> i \<and> i < n \<longrightarrow> is_object (sb ! i)" "elm \<le> n"
  shows "\<exists>sb'. length sb' = length sb \<and> (\<forall>i < length sb. is_object (sb' ! i) = is_object (sb ! i)) \<and>
           move_loop (Ptr a) (Ptr d) elm n w =
             Some (w\<lparr>heap := (heap w)[a := Some sb',
                                       d := Some (take elm db @ take (n - elm) (drop elm sb) @ drop n db)],
                     trace := trace w @ map (\<lambda>i. Relocate a i d i) [elm..<n]\<rparr>)"
  using assms
proof (induction "n - elm" arbitrary: elm w sb db)
  case 0
  then have "n = elm" by simp
  moreover have "(heap w)[a := Some sb, d := Some db] = heap w"
    using 0 by (simp add: heap_update_same)
  ultimately show ?case
    by (intro exI[of _ sb]) simp
next
  case (Suc k)
  then have lt: "elm < n" by simp
  let ?sb1 = "sb[elm := moved_out (sb ! elm)]"
  let ?db1 = "db[elm := sb ! elm]"
  let ?w1 = "emit (Relocate a elm d elm) (store d ?db1 (store a ?sb1 w))"
  have la: "a < length (heap w)" and ld: "d < length (heap w)"
    using Suc.prems by (auto dest: lookup_Some_less)
  have step: "move_construct (Ptr a) (Ptr d) elm w = Some ?w1"
    using Suc.prems lt by (simp add: move_construct_def is_object_iff[symmetric])
  have l1: "lookup ?w1 a = Some ?sb1" "lookup ?w1 d = Some ?db1"
    using Suc.prems la ld by (simp_all add: lookup_store)
  have "\<exists>sb'. length sb' = length ?sb1 \<and> (\<forall>i < length ?sb1. is_object (sb' ! i) = is_object (?sb1 ! i)) \<and>
           move_loop (Ptr a) (Ptr d) (Suc elm) n ?w1 =
             Some (?w1\<lparr>heap := (heap ?w1)[a := Some sb',
                   d := Some (take (Suc elm) ?db1 @ take (n - Suc elm) (drop (Suc elm) ?sb1) @ drop n ?db1)],
                     trace := trace ?w1 @ map (\<lambda>i. Relocate a i d i) [Suc elm..<n]\<rparr>)"
    using Suc.hyps(2) Suc.prems lt by (intro Suc.hyps(1)[OF _ l1]) auto
  then obtain sb' where b: "length sb' = length sb"
     "\<forall>i < length sb. is_object (sb' ! i) = is_object (?sb1 ! i)"
     "move_loop (Ptr a) (Ptr d) (Suc elm) n ?w1 =
             Some (?w1\<lparr>heap := (heap ?w1)[a := Some sb',
                   d := Some (take (Suc elm) ?db1 @ take (n - Suc elm) (drop (Suc elm) ?sb1) @ drop n ?db1)],
                     trace := trace ?w1 @ map (\<lambda>i. Relocate a i d i) [Suc elm..<n]\<rparr>)"
    by auto
  have "is_object (?sb1 ! i) = is_object (sb ! i)" if "i < length sb" for i
    using that by (cases "i = elm") simp_all
  then have obj: "\<forall>i < length sb. is_object (sb' ! i) = is_object (sb ! i)"
    using b(2) by simp
  have blk: "take (Suc elm) ?db1 @ take (n - Suc elm) (drop (Suc elm) ?sb1) @ drop n ?db1
       = take elm db @ take (n - elm) (drop elm sb) @ drop n db"
  proof -
    have 1: "take (Suc elm) ?db1 = take elm db @ [sb ! elm]"
      using lt Suc.prems by (simp add: take_Suc_conv_app_nth)
    have 2: "drop (Suc elm) ?sb1 = drop (Suc elm) sb" by simp
    have 3: "drop n ?db1 = drop n db" using lt by simp
    have 4: "take (n - elm) (drop elm sb) = sb ! elm # take (n - Suc elm) (drop (Suc elm) sb)"
    proof -
      have "drop elm sb = sb ! elm # drop (Suc elm) sb"
        using lt Suc.prems by (simp add: Cons_nth_drop_Suc)
      moreover have "n - elm = Suc (n - Suc elm)" using lt by simp
      ultimately show ?thesis by simp
    qed
    show ?thesis by (simp only: 1 2 3 4) simp
  qed
  have heap_eq: "(heap ?w1)[a := Some sb', d := Some X] = (heap w)[a := Some sb', d := Some X]" for X
    using Suc.prems(3) by (simp add: list_update_swap)
  show ?case
    apply (rule exI[of _ sb'])
    apply (subst move_loop.simps)
    using lt b(1) obj step b(3) unfolding blk heap_eq
    by (simp add: upt_conv_Cons emit_def store_def)
qed

subsection \<open>Reallocation\<close>

lemma wf_Null: "wf b w \<Longrightarrow> m_data b = Null \<Longrightarrow> m_size b = 0 \<and> m_reserved b = 0"
  by (simp add: wf_def)

lemma wf_Ptr:
  "wf b w \<Longrightarrow> m_data b = Ptr a \<Longrightarrow>
     \<exists>blk. lookup w a = Some blk \<and> length blk = m_reserved b \<and> 0 < m_reserved b
       \<and> m_size b \<le> m_reserved b \<and> list_all is_live (take (m_size b) blk)"
  by (auto simp: wf_def split: option.splits)

lemma list_all_take_nth: "list_all P (take k xs) \<Longrightarrow> i < k \<Longrightarrow> i < length xs \<Longrightarrow> P (xs ! i)"
  by (metis length_take list_all_length min_less_iff_conj nth_take)

lemma realloc_Null:
  assumes "m_data b = Null" "m_size b = 0" "alloc C w n = Grants"
  shows "realloc C n b w =
           Return (Ptr (length (heap w)))
             (w\<lparr>heap := heap w @ [Some (replicate n Raw)],
                trace := trace w @ relocation_events C b n (length (heap w))\<rparr>)"
  using assms
  by (simp add: realloc_def allocate_def destruct_def dealloc_def deallocate_def
      relocation_events_def emit_def)

lemma realloc_Ptr:
  assumes "m_data b = Ptr a" "lookup w a = Some sb" "m_size b \<le> length sb" "m_size b \<le> n"
    "list_all is_live (take (m_size b) sb)" "alloc C w n = Grants"
  shows "realloc C n b w =
           Return (Ptr (length (heap w)))
             (w\<lparr>heap := (heap w)[a := None] @ [Some (take (m_size b) sb @ replicate (n - m_size b) Raw)],
                trace := trace w @ relocation_events C b n (length (heap w))\<rparr>)"
proof -
  let ?d = "length (heap w)"
  let ?k = "m_size b"
  let ?w1 = "emit (Allocate n ?d) (w\<lparr>heap := heap w @ [Some (replicate n Raw)]\<rparr>)"
  let ?X = "take ?k sb @ replicate (n - ?k) Raw"
  have la: "a < ?d" using assms(2) by (rule lookup_Some_less)
  have alloc: "allocate C n w = Return (Ptr ?d) ?w1"
    using assms by (simp add: allocate_def)
  have l1: "lookup ?w1 a = Some sb" "lookup ?w1 ?d = Some (replicate n Raw)"
    using la assms(2) by (simp_all add: lookup_def nth_append)
  have objs: "\<forall>i. 0 \<le> i \<and> i < ?k \<longrightarrow> is_object (sb ! i)"
    using assms(3,5) by (auto intro!: is_live_is_object dest: list_all_take_nth)
  obtain sb' where sb': "length sb' = length sb"
      "\<forall>i < length sb. is_object (sb' ! i) = is_object (sb ! i)"
      "move_loop (Ptr a) (Ptr ?d) 0 ?k ?w1 =
         Some (?w1\<lparr>heap := (heap ?w1)[a := Some sb',
                       ?d := Some (take 0 (replicate n Raw) @ take (?k - 0) (drop 0 sb) @ drop ?k (replicate n Raw))],
                 trace := trace ?w1 @ map (\<lambda>i. Relocate a i ?d i) [0..<?k]\<rparr>)"
    using move_loop_run[OF l1, of ?k 0] la assms(3,4) objs by auto
  let ?w2 = "w\<lparr>heap := (heap w)[a := Some sb'] @ [Some ?X],
               trace := trace w @ Allocate n ?d # map (\<lambda>i. Relocate a i ?d i) [0..<?k]\<rparr>"
  have mv: "move_loop (Ptr a) (Ptr ?d) 0 ?k ?w1 = Some ?w2"
    using sb'(3) la by (simp add: list_update_append emit_def)
  have l2: "lookup ?w2 a = Some sb'"
    using la by (simp add: lookup_def nth_append)
  have objs': "\<forall>i. 0 \<le> i \<and> i < ?k \<longrightarrow> is_object (sb' ! i)"
    using objs sb'(2) assms(3) by auto
  obtain blk' where blk': "length blk' = length sb'"
      "destruct_loop (Ptr a) 0 ?k ?w2 =
         Some (?w2\<lparr>heap := (heap ?w2)[a := Some blk'], trace := trace ?w2 @ map (Destruct a) [0..<?k]\<rparr>)"
    using destruct_loop_run[OF l2, of ?k 0] objs' sb'(1) assms(3) by auto
  show ?thesis
  proof (cases "trivially_destructible C")
    case True
    then show ?thesis
      using assms(1) alloc mv l2 la
      by (simp add: realloc_def destruct_def dealloc_def deallocate_def relocation_events_def
          emit_def list_update_append)
  next
    case False
    let ?w3 = "?w2\<lparr>heap := (heap ?w2)[a := Some blk'], trace := trace ?w2 @ map (Destruct a) [0..<?k]\<rparr>"
    have l3: "lookup ?w3 a = Some blk'"
      using la by (simp add: lookup_def nth_append)
    show ?thesis
      using False assms(1) alloc mv blk'(2) l3 la
      by (simp add: realloc_def destruct_def dealloc_def deallocate_def relocation_events_def
          emit_def list_update_append)
  qed
qed

lemma reserve_noop: "n \<le> m_reserved b \<Longrightarrow> reserve C n b w = Return () (b, w)"
  by (simp add: reserve_def)

lemma reserve_fail:
  "m_reserved b < n \<Longrightarrow> alloc C w n = Throws \<Longrightarrow>
     reserve C n b w = Throw AllocationFailure (b, emit (AllocateFailed n) w)"
  by (simp add: reserve_def realloc_def allocate_def)

lemma reserve_grow:
  assumes "wf b w" "m_reserved b < n" "alloc C w n = Grants"
  shows "reserve C n b w = Return () (regrown n b w, grown C n b w)"
proof (cases "m_data b")
  case Null
  then show ?thesis
    using assms wf_Null[OF assms(1) Null] realloc_Null[of b C w n]
    by (simp add: reserve_def grown_def regrown_def elements_def)
next
  case (Ptr a)
  from wf_Ptr[OF assms(1) Ptr] obtain blk where blk: "lookup w a = Some blk"
    "length blk = m_reserved b" "m_size b \<le> m_reserved b" "list_all is_live (take (m_size b) blk)"
    by auto
  have "realloc C n b w =
           Return (Ptr (length (heap w)))
             (w\<lparr>heap := (heap w)[a := None] @ [Some (take (m_size b) blk @ replicate (n - m_size b) Raw)],
                trace := trace w @ relocation_events C b n (length (heap w))\<rparr>)"
    using blk assms by (intro realloc_Ptr[OF Ptr]) auto
  then show ?thesis
    using Ptr blk assms by (simp add: reserve_def grown_def regrown_def elements_def)
qed

lemma elements_live: "wf b w \<Longrightarrow> list_all is_live (elements b w)"
  by (auto simp: wf_def elements_def split: ptr.splits option.splits)

lemma length_elements: "wf b w \<Longrightarrow> length (elements b w) = m_size b"
  by (auto simp: wf_def elements_def split: ptr.splits option.splits)

lemma lookup_grown:
  "lookup (grown C n b w) (length (heap w)) = Some (elements b w @ replicate (n - m_size b) Raw)"
  by (simp add: grown_def lookup_def nth_append split: ptr.splits)

lemma regrown_simps [simp]:
  "m_data (regrown n b w) = Ptr (length (heap w))"
  "m_reserved (regrown n b w) = n"
  "m_size (regrown n b w) = m_size b"
  by (simp_all add: regrown_def)

lemma wf_emit [simp]: "wf b (emit e w) = wf b w"
  by (auto simp: wf_def split: ptr.splits option.splits)

lemma elements_emit [simp]: "elements b (emit e w) = elements b w"
  by (auto simp: elements_def split: ptr.splits option.splits)

lemma wf_grown:
  assumes "wf b w" "m_reserved b < n"
  shows "wf (regrown n b w) (grown C n b w)"
proof -
  have "m_size b \<le> m_reserved b" using assms(1) by (simp add: wf_def)
  then show ?thesis
    using assms(2) elements_live[OF assms(1)] length_elements[OF assms(1)]
    by (simp add: wf_def[of "regrown n b w"] lookup_grown)
qed

lemma elements_grown:
  assumes "wf b w"
  shows "elements (regrown n b w) (grown C n b w) = elements b w"
  using length_elements[OF assms]
  by (simp add: elements_def[of "regrown n b w"] lookup_grown)


lemma move_loop_Null:
  "0 < n \<Longrightarrow> move_loop p Null 0 n w = None"
  by (subst move_loop.simps) (simp add: move_construct_def split: ptr.splits)

lemma reserve_null:
  assumes "wf b w" "m_reserved b < n" "alloc C w n = ReturnsNull"
  shows "reserve C n b w =
           (if m_size b = 0
            then Return () (b\<lparr>m_data := Null, m_reserved := n\<rparr>,
                    w\<lparr>heap := (case m_data b of Null \<Rightarrow> heap w | Ptr a \<Rightarrow> (heap w)[a := None]),
                      trace := trace w @ [AllocateNull n, Deallocate (m_data b)]\<rparr>)
            else Undefined)"
proof (cases "m_size b = 0")
  case True
  show ?thesis
  proof (cases "m_data b")
    case Null
    then show ?thesis
      using assms True
      by (simp add: reserve_def realloc_def allocate_def destruct_def dealloc_def deallocate_def
          emit_def)
  next
    case (Ptr a)
    from wf_Ptr[OF assms(1) Ptr] obtain blk where "lookup w a = Some blk" by auto
    then show ?thesis
      using assms True Ptr
      by (auto simp: reserve_def realloc_def allocate_def destruct_def dealloc_def deallocate_def
          emit_def lookup_def split: if_splits)
  qed
next
  case False
  then show ?thesis
    using assms by (simp add: reserve_def realloc_def allocate_def move_loop_Null)
qed

subsection \<open>Insertion\<close>

lemma construct_from_Val [simp]: "construct_from m p i (Val x) w = placement_new p i x w"
  by (simp add: construct_from_def)



lemma push_insert_with: "push C x b w = insert_with C Copy x b w"
  by (simp add: push_def insert_with_def)

lemma push_rvalue_insert_with: "push_rvalue C x b w = insert_with C Move x b w"
  by (simp add: push_rvalue_def insert_with_def)

lemma emplace_insert_with: "emplace C m x b w = insert_with C m x b w"
  unfolding emplace_def insert_with_def emplace_no_checks_def push_no_checks_def by (rule refl)





subsection \<open>Traces\<close>

lemma growth_calls_append [simp]: "growth_calls (xs @ ys) = growth_calls xs @ growth_calls ys"
  by (induction xs rule: growth_calls.induct) simp_all

lemma growth_calls_map_Relocate [simp]: "growth_calls (map (\<lambda>i. Relocate a i d i) xs) = []"
  by (induction xs) simp_all

lemma growth_calls_map_Destruct [simp]: "growth_calls (map (Destruct a) xs) = []"
  by (induction xs) simp_all

lemma growth_calls_relocation [simp]: "growth_calls (relocation_events C b n d) = []"
  by (simp add: relocation_events_def split: ptr.splits)


lemma trace_grown [simp]:
  "trace (grown C n b w) = trace w @ relocation_events C b n (length (heap w))"
  by (simp add: grown_def)



lemma Buffer_simps [simp]: "m_data Buffer = Null" "m_reserved Buffer = 0" "m_size Buffer = 0"
  by (simp_all add: Buffer_def)

lemma wf_Buffer [simp]: "wf Buffer w"
  by (simp add: wf_def Buffer_def)

lemma elements_Buffer [simp]: "elements Buffer w = []"
  by (simp add: elements_def Buffer_def)

lemma doubling_grows: "s < doubling s"
  unfolding doubling_def by arith

lemma growth_demo [simp]: "growth demo = doubling"
  by (simp add: demo_def)



lemma allocator_calls_append [simp]:
  "allocator_calls (xs @ ys) = allocator_calls xs @ allocator_calls ys"
  by (induction xs rule: allocator_calls.induct) simp_all



subsection \<open>Moves\<close>

lemma move_assign_eq:
  "move_assign t r s = (if t = r then s(r := Buffer) else s(t := s r, r := Buffer))"
  by (auto simp: move_assign_def Buffer_def Let_def fun_eq_iff)

lemma move_ctor_eq:
  "t \<noteq> r \<Longrightarrow> move_ctor t r s = s(t := s r, r := Buffer)"
  by (auto simp: move_ctor_def Buffer_def Let_def fun_eq_iff)

lemma destructor_Buffer: "destructor C Buffer w = Return () (emit (Deallocate Null) w)"
  by (simp add: destructor_def destruct_def dealloc_def deallocate_def)

subsection \<open>The invariants of the members\<close>

lemma realloc_Return_Ptr:
  "realloc C n b w = Return dest w' \<Longrightarrow> alloc C w n \<noteq> ReturnsNull \<Longrightarrow>
     dest = Ptr (length (heap w))"
  by (auto simp: realloc_def allocate_def split: alloc_outcome.splits option.splits)

lemma reserve_Return_invariants:
  "invariants b \<Longrightarrow> reserve C n b w = Return u (b', w') \<Longrightarrow> alloc C w n \<noteq> ReturnsNull \<Longrightarrow>
     invariants b' \<and> m_size b' = m_size b \<and> n \<le> m_reserved b'"
  by (auto simp: reserve_def invariants_def split: if_splits result.splits
      dest!: realloc_Return_Ptr)

lemma reserve_Throw_same: "reserve C n b w = Throw e (b', w') \<Longrightarrow> b' = b"
  by (auto simp: reserve_def split: if_splits result.splits)

lemma push_no_checks_Return:
  "push_no_checks m x b w = Return u (b', w') \<Longrightarrow> b' = b\<lparr>m_size := m_size b + 1\<rparr>"
  by (auto simp: push_no_checks_def split: option.splits)

lemma push_no_checks_Throw: "push_no_checks m x b w \<noteq> Throw e s"
  by (auto simp: push_no_checks_def split: option.splits)

lemma insert_with_invariants:
  assumes "\<forall>s. s < growth C s" "invariants b"
    "insert_with C m x b w = Return u (b', w') \<or> insert_with C m x b w = Throw e (b', w')"
    "\<forall>w n. alloc C w n \<noteq> ReturnsNull"
  shows "invariants b'"
proof (cases "m_size b = m_reserved b")
  case True
  show ?thesis
  proof (cases "reserve C (growth C (m_size b)) b (emit (Grow (m_size b)) w)")
    case (Return u1 s1)
    obtain b1 w1 where s1: "s1 = (b1, w1)" by (cases s1)
    have i1: "invariants b1" "m_size b1 = m_size b" "growth C (m_size b) \<le> m_reserved b1"
      using reserve_Return_invariants[OF assms(2) Return[unfolded s1]] assms(4) by auto
    have "m_size b1 < m_reserved b1" using i1 assms(1) by (metis less_le_trans)
    then show ?thesis
      using assms(3) True Return s1 i1
      by (auto simp: insert_with_def grow_if_needed_def invariants_def push_no_checks_Throw
          dest!: push_no_checks_Return)
  next
    case (Throw e1 s1)
    then show ?thesis
      using assms(2,3) True by (auto simp: insert_with_def grow_if_needed_def dest: reserve_Throw_same)
  next
    case Undefined
    then show ?thesis
      using assms(3) True by (auto simp: insert_with_def grow_if_needed_def)
  qed
next
  case False
  then show ?thesis
    using assms(2,3)
    by (auto simp: insert_with_def grow_if_needed_def invariants_def push_no_checks_Throw
        dest!: push_no_checks_Return)
qed

lemma clear_invariants:
  "invariants b \<Longrightarrow> clear C b w = Return u (b', w') \<or> clear C b w = Throw e (b', w') \<Longrightarrow> invariants b'"
  by (auto simp: clear_def Let_def invariants_def split: option.splits)

lemma reserve_invariants:
  "invariants b \<Longrightarrow> reserve C n b w = Return u (b', w') \<or> reserve C n b w = Throw e (b', w') \<Longrightarrow>
     alloc C w n \<noteq> ReturnsNull \<Longrightarrow> invariants b'"
  by (auto dest: reserve_Return_invariants reserve_Throw_same)

lemma resize_invariants:
  assumes "invariants b" "resize C n b w = Return u (b', w') \<or> resize C n b w = Throw e (b', w')"
    "alloc C w n \<noteq> ReturnsNull"
  shows "invariants b'"
proof (cases "reserve C n b w")
  case (Return u1 s1)
  obtain b1 w1 where s1: "s1 = (b1, w1)" by (cases s1)
  have i1: "invariants b1" "n \<le> m_reserved b1"
    using reserve_Return_invariants[OF assms(1) Return[unfolded s1] assms(3)] by auto
  then show ?thesis
    using assms(2) Return s1 by (auto simp: resize_def invariants_def split: option.splits)
next
  case (Throw e1 s1)
  then show ?thesis
    using assms(1,2) by (auto simp: resize_def dest: reserve_Throw_same)
next
  case Undefined
  then show ?thesis using assms(2) by (auto simp: resize_def)
qed

lemma unwind_Return: "unwind C r = Return u s \<Longrightarrow> r = Return u s"
  by (auto simp: unwind_def split: result.splits)

lemma invariants_Buffer [simp]: "invariants Buffer"
  by (simp add: invariants_def Buffer_def)

lemma Buffer_sized_invariants:
  "Buffer_sized C n w = Return u (b', w') \<Longrightarrow> alloc C w n \<noteq> ReturnsNull \<Longrightarrow> invariants b'"
  by (auto simp: Buffer_sized_def dest!: unwind_Return intro: resize_invariants[OF invariants_Buffer])

lemma Buffer_range_invariants:
  "Buffer_range C start len w = Return u (b', w') \<Longrightarrow> alloc C w len \<noteq> ReturnsNull \<Longrightarrow> invariants b'"
proof -
  assume a: "Buffer_range C start len w = Return u (b', w')" and nn: "alloc C w len \<noteq> ReturnsNull"
  show ?thesis
  proof (cases "reserve C len Buffer w")
    case (Return u1 s1)
    obtain b1 w1 where s1: "s1 = (b1, w1)" by (cases s1)
    have i1: "invariants b1" "len \<le> m_reserved b1"
      using reserve_Return_invariants[OF invariants_Buffer Return[unfolded s1] nn] by auto
    then show ?thesis
      using a Return s1
      by (auto simp: Buffer_range_def invariants_def dest!: unwind_Return split: option.splits)
  next
    case (Throw e1 s1)
    then show ?thesis using a by (auto simp: Buffer_range_def dest!: unwind_Return)
  next
    case Undefined
    then show ?thesis using a by (auto simp: Buffer_range_def dest!: unwind_Return)
  qed
qed

lemma push_each_Return:
  "push_each vs b w = Return u (b', w') \<Longrightarrow> b' = b\<lparr>m_size := m_size b + length vs\<rparr>"
proof (induction vs arbitrary: b w)
  case Nil
  then show ?case by simp
next
  case (Cons v vs)
  from Cons.prems obtain u1 b1 w1 where
    1: "push_no_checks Copy (Val v) b w = Return u1 (b1, w1)" and 2: "push_each vs b1 w1 = Return u (b', w')"
    by (auto split: result.splits)
  have "b1 = b\<lparr>m_size := m_size b + 1\<rparr>" using 1 by (rule push_no_checks_Return)
  then show ?case using Cons.IH[OF 2] by simp
qed

lemma Buffer_list_invariants:
  "Buffer_list C vs w = Return u (b', w') \<Longrightarrow> alloc C w (length vs) \<noteq> ReturnsNull \<Longrightarrow>
     invariants b'"
proof -
  assume a: "Buffer_list C vs w = Return u (b', w')"
    and nn: "alloc C w (length vs) \<noteq> ReturnsNull"
  show ?thesis
  proof (cases "reserve C (length vs) Buffer w")
    case (Return u1 s1)
    obtain b1 w1 where s1: "s1 = (b1, w1)" by (cases s1)
    have i1: "invariants b1" "length vs \<le> m_reserved b1" "m_size b1 = 0"
      using reserve_Return_invariants[OF invariants_Buffer Return[unfolded s1] nn] by auto
    then show ?thesis
      using a Return s1
      by (auto simp: Buffer_list_def invariants_def dest!: unwind_Return push_each_Return)
  next
    case (Throw e1 s1)
    then show ?thesis using a by (auto simp: Buffer_list_def dest!: unwind_Return)
  next
    case Undefined
    then show ?thesis using a by (auto simp: Buffer_list_def dest!: unwind_Return)
  qed
qed

lemma call_preserves:
  assumes "all_invariants st"
    "call v f st = Return () st' \<or> call v f st = Throw e st'"
    "\<And>b w u b' w' e. invariants b \<Longrightarrow> f b w = Return u (b', w') \<or> f b w = Throw e (b', w') \<Longrightarrow> invariants b'"
  shows "all_invariants st'"
proof -
  have v: "v \<in> alive st" using assms(2) by (auto simp: call_def split: if_splits)
  then have i: "invariants (objs st v)" using assms(1) by (simp add: all_invariants_def)
  obtain u b' w' where r: "f (objs st v) (wld st) = Return u (b', w') \<or> f (objs st v) (wld st) = Throw e (b', w')"
    and st': "st' = st\<lparr>objs := (objs st)(v := b'), wld := w'\<rparr>"
    using assms(2) v by (auto simp: call_def split: result.splits)
  have "invariants b'" using assms(3)[OF i r] .
  then show ?thesis using assms(1) st' by (simp add: all_invariants_def)
qed

lemma create_preserves:
  assumes "all_invariants st"
    "create v f st = Return () st' \<or> create v f st = Throw e st'"
    "\<And>w u b' w'. f w = Return u (b', w') \<Longrightarrow> invariants b'"
  shows "all_invariants st'"
  using assms(1,2)
  by (auto simp: create_def all_invariants_def split: if_splits result.splits
      intro: assms(3))

lemma exec_preserves:
  assumes "\<forall>s. s < growth C s" "all_invariants st"
    "exec C c st = Return () st' \<or> exec C c st = Throw e st'"
    "\<forall>w n. alloc C w n \<noteq> ReturnsNull"
  shows "all_invariants st'"
proof (cases c)
  case (NewDefault v)
  then show ?thesis using assms by (auto elim!: create_preserves)
next
  case (NewSized v n)
  then show ?thesis using assms by (auto elim!: create_preserves dest: Buffer_sized_invariants)
next
  case (NewRange v start len)
  then show ?thesis using assms by (auto elim!: create_preserves dest: Buffer_range_invariants)
next
  case (NewList v vs)
  then show ?thesis using assms by (auto elim!: create_preserves dest: Buffer_list_invariants)
next
  case (NewMove v r)
  with assms(3) have a: "v \<notin> alive st" "r \<in> alive st" by (auto split: if_splits)
  then have "v \<noteq> r" by auto
  then show ?thesis
    using NewMove assms a by (auto simp: all_invariants_def move_ctor_eq)
next
  case (MoveAssign v r)
  then show ?thesis
    using assms by (auto simp: all_invariants_def move_assign_eq split: if_splits)
next
  case (Push v x)
  have "all_invariants st'"
    if "call v (insert_with C Copy x) st = Return () st' \<or> call v (insert_with C Copy x) st = Throw e st'"
    using assms(2) that
    by (rule call_preserves) (rule insert_with_invariants[OF assms(1) _ _ assms(4)])
  then show ?thesis
    using assms(3) Push by (simp add: push_insert_with[abs_def])
next
  case (PushRvalue v x)
  have "all_invariants st'"
    if "call v (insert_with C Move x) st = Return () st' \<or> call v (insert_with C Move x) st = Throw e st'"
    using assms(2) that
    by (rule call_preserves) (rule insert_with_invariants[OF assms(1) _ _ assms(4)])
  then show ?thesis
    using assms(3) PushRvalue by (simp add: push_rvalue_insert_with[abs_def])
next
  case (Emplace v m x)
  have "all_invariants st'"
    if "call v (insert_with C m x) st = Return () st' \<or> call v (insert_with C m x) st = Throw e st'"
    using assms(2) that
    by (rule call_preserves) (rule insert_with_invariants[OF assms(1) _ _ assms(4)])
  then show ?thesis
    using assms(3) Emplace by (simp add: emplace_insert_with[abs_def])
next
  case (Clear v)
  then show ?thesis
    using assms(3) by (auto intro: call_preserves[OF assms(2)] clear_invariants)
next
  case (Reserve v n)
  have "all_invariants st'"
    if "call v (reserve C n) st = Return () st' \<or> call v (reserve C n) st = Throw e st'"
    using assms(2) that
    by (rule call_preserves) (rule reserve_invariants, assumption+, simp add: assms(4))
  then show ?thesis
    using assms(3) Reserve by simp
next
  case (Resize v n)
  have "all_invariants st'"
    if "call v (resize C n) st = Return () st' \<or> call v (resize C n) st = Throw e st'"
    using assms(2) that
    by (rule call_preserves) (rule resize_invariants, assumption+, simp add: assms(4))
  then show ?thesis
    using assms(3) Resize by simp
next
  case (Delete v)
  then show ?thesis
    using assms by (auto simp: all_invariants_def split: if_splits result.splits)
qed

lemma reachable_invariants:
  assumes "\<forall>s. s < growth C s" "reachable C st" "\<forall>w n. alloc C w n \<noteq> ReturnsNull"
  shows "all_invariants st"
  using assms(2)
proof (induction rule: reachable.induct)
  case (start st)
  then show ?case by (simp add: all_invariants_def)
next
  case (step st c st')
  then show ?case using exec_preserves[OF assms(1) _ _ assms(3), of st c st'] by simp
next
  case (caught st c e st')
  then show ?case using exec_preserves[OF assms(1) _ _ assms(3), of st c st' e] by simp
qed

lemma reachable_run:
  "reachable C st \<Longrightarrow> run C cs st = Return () st' \<Longrightarrow> reachable C st'"
proof (induction cs arbitrary: st)
  case Nil
  then show ?case by simp
next
  case (Cons c cs)
  then show ?case
    by (auto split: result.splits intro: reachable.step)
qed

subsection \<open>Clearing and the range constructor on bytes\<close>

lemma clear_eq: "clear C b w = Return () (b\<lparr>m_size := 0\<rparr>, w)"
  by (simp add: clear_def destruct_def Let_def)


lemma range_constructor_bytes:
  assumes "sizeof_value C = 1" "len \<le> length start" "alloc C w len = Grants"
  shows "\<exists>b' w'. Buffer_range C start len w = Return () (b', w')
           \<and> m_size b' = len \<and> len \<le> m_reserved b'
           \<and> elements b' w' = map Live (take len start)"
proof (cases "len = 0")
  case True
  then show ?thesis
    by (simp add: Buffer_range_def reserve_noop memcpy_def unwind_def elements_def)
next
  case False
  have r: "reserve C len Buffer w = Return () (regrown len Buffer w, grown C len Buffer w)"
    using False assms(3) by (intro reserve_grow) simp_all
  have l: "lookup (grown C len Buffer w) (length (heap w)) = Some (replicate len Raw)"
    using lookup_grown[of C len Buffer w] by simp
  have h: "length (heap w) < length (heap (grown C len Buffer w))"
    by (simp add: grown_def)
  show ?thesis
    using False r l h assms(1,2)
    by (simp add: Buffer_range_def unwind_def memcpy_def elements_def lookup_store)
qed

subsection \<open>Ownership is preserved\<close>

lemma only_refl [simp]: "only A w w"
  by (simp add: only_def)

lemma only_trans: "only A w w' \<Longrightarrow> only A w' w'' \<Longrightarrow> only A w w''"
  by (simp add: only_def)

lemma only_mono: "only A w w' \<Longrightarrow> A \<subseteq> B \<Longrightarrow> only B w w'"
  by (auto simp: only_def)

lemma only_emit [simp]: "only A w (emit e w)"
  by (simp add: only_def)

lemma only_emit_right: "only A w w' \<Longrightarrow> only A w (emit e w')"
  by (simp add: only_def)

lemma only_store:
  "lookup w a = Some blk \<Longrightarrow> length blk' = length blk \<Longrightarrow> only {a} w (store a blk' w)"
  by (auto simp: only_def lookup_store dest: lookup_Some_less)

lemma placement_new_only: "placement_new p i v w = Some w' \<Longrightarrow> only (addrs p) w w'"
  by (auto simp: placement_new_def split: ptr.splits option.splits if_splits
      intro!: only_emit_right only_store)

lemma destruct_at_only: "destruct_at p i w = Some w' \<Longrightarrow> only (addrs p) w w'"
  by (auto simp: destruct_at_def split: ptr.splits option.splits if_splits
      intro!: only_emit_right only_store)

lemma move_construct_only:
  assumes "move_construct p q i w = Some w'"
  shows "only (addrs p \<union> addrs q) w w'"
proof -
  from assms obtain a d sb db where p: "p = Ptr a" "q = Ptr d"
    and l: "lookup w a = Some sb" "lookup w d = Some db"
    and w': "w' = emit (Relocate a i d i) (store d (db[i := sb ! i]) (store a (sb[i := moved_out (sb ! i)]) w))"
    and ne: "a \<noteq> d"
    by (auto simp: move_construct_def split: ptr.splits option.splits if_splits)
  have 1: "only {a} w (store a (sb[i := moved_out (sb ! i)]) w)"
    using l by (intro only_store) simp_all
  have "lookup (store a (sb[i := moved_out (sb ! i)]) w) d = Some db"
    using l ne by (simp add: lookup_store)
  then have 2: "only {d} (store a (sb[i := moved_out (sb ! i)]) w)
                  (store d (db[i := sb ! i]) (store a (sb[i := moved_out (sb ! i)]) w))"
    by (intro only_store) simp_all
  show ?thesis
    unfolding w' p
    by (intro only_emit_right only_trans[OF only_mono[OF 1] only_mono[OF 2]]) auto
qed

lemma destruct_loop_only: "destruct_loop p elm n w = Some w' \<Longrightarrow> only (addrs p) w w'"
proof (induction p elm n w rule: destruct_loop.induct)
  case (1 p elm n w)
  show ?case
  proof (cases "elm < n")
    case True
    with "1.prems" obtain w1 where w1: "destruct_at p elm w = Some w1"
        "destruct_loop p (Suc elm) n w1 = Some w'"
      by (subst (asm) destruct_loop.simps) (auto split: option.splits)
    show ?thesis
      using only_trans[OF destruct_at_only[OF w1(1)] "1.IH"[OF True w1(1) w1(2)]] .
  next
    case False
    with "1.prems" show ?thesis by simp
  qed
qed

lemma construct_loop_only: "construct_loop d p elm n w = Some w' \<Longrightarrow> only (addrs p) w w'"
proof (induction d p elm n w rule: construct_loop.induct)
  case (1 d p elm n w)
  show ?case
  proof (cases "elm < n")
    case True
    with "1.prems" obtain w1 where w1: "placement_new p elm d w = Some w1"
        "construct_loop d p (Suc elm) n w1 = Some w'"
      by (subst (asm) construct_loop.simps) (auto split: option.splits)
    show ?thesis
      using only_trans[OF placement_new_only[OF w1(1)] "1.IH"[OF True w1(1) w1(2)]] .
  next
    case False
    with "1.prems" show ?thesis by simp
  qed
qed

lemma move_loop_only: "move_loop p q elm n w = Some w' \<Longrightarrow> only (addrs p \<union> addrs q) w w'"
proof (induction p q elm n w rule: move_loop.induct)
  case (1 p q elm n w)
  show ?case
  proof (cases "elm < n")
    case True
    with "1.prems" obtain w1 where w1: "move_construct p q elm w = Some w1"
        "move_loop p q (Suc elm) n w1 = Some w'"
      by (subst (asm) move_loop.simps) (auto split: option.splits)
    show ?thesis
      using only_trans[OF move_construct_only[OF w1(1)] "1.IH"[OF True w1(1) w1(2)]] .
  next
    case False
    with "1.prems" show ?thesis by simp
  qed
qed

lemma memcpy_only: "memcpy sz p src n w = Some w' \<Longrightarrow> only (addrs p) w w'"
  by (auto simp: memcpy_def Let_def split: ptr.splits option.splits if_splits
      intro!: only_emit_right only_store)

lemma construct_from_only:
  assumes "construct_from m p i x w = Some w'"
  shows "only UNIV w w'"
proof (cases x)
  case (Val v)
  then have "only (addrs p) w w'"
    using assms by (simp add: placement_new_only)
  then show ?thesis by (rule only_mono) simp
next
  case (At a j)
  from assms At obtain sb where l: "lookup w a = Some sb"
    by (auto simp: construct_from_def split: option.splits)
  define w1 where "w1 = (case m of Copy \<Rightarrow> w | Move \<Rightarrow> store a (sb[j := moved_out (sb ! j)]) w)"
  have "construct_from m p i x w =
          (if j < length sb \<and> sb ! j \<noteq> Raw \<and> sb ! j \<noteq> Partial \<and> (p \<noteq> Ptr a \<or> i \<noteq> j)
           then (case p of
                   Null \<Rightarrow> None
                 | Ptr d \<Rightarrow>
                     (case lookup w1 d of
                        None \<Rightarrow> None
                      | Some db \<Rightarrow>
                          if i < length db
                          then Some (emit (Construct d i) (store d (db[i := sb ! j]) w1))
                          else None))
           else None)"
    unfolding construct_from_def At w1_def by (auto simp: l Let_def)
  with assms obtain d db where p: "p = Ptr d"
    and ld: "lookup w1 d = Some db"
    and w': "w' = emit (Construct d i) (store d (db[i := sb ! j]) w1)"
    by (auto split: option.splits if_splits ptr.splits)
  have "only {a} w w1"
    using l by (cases m) (auto simp: w1_def intro!: only_store)
  then have 1: "only UNIV w w1" by (rule only_mono) simp
  have "only {d} w1 (store d (db[i := sb ! j]) w1)"
    using ld by (intro only_store) simp_all
  then have 2: "only UNIV w1 (store d (db[i := sb ! j]) w1)" by (rule only_mono) simp
  show ?thesis
    unfolding w' by (intro only_emit_right only_trans[OF 1 2])
qed

lemma construct_from_bound:
  assumes "construct_from m p i x w = Some w'"
  shows "\<exists>d blk. p = Ptr d \<and> lookup w d = Some blk \<and> i < length blk"
proof (cases x)
  case (Val v)
  then show ?thesis
    using assms by (auto simp: placement_new_def split: ptr.splits option.splits if_splits)
next
  case (At a j)
  then show ?thesis
    using assms
    by (cases m)
      (auto simp: construct_from_def Let_def lookup_store
        split: option.splits if_splits ptr.splits)
qed

lemma owns_Ptr:
  "owns b w \<Longrightarrow> m_data b = Ptr a \<Longrightarrow> \<exists>blk. lookup w a = Some blk \<and> length blk = m_reserved b"
  by (auto simp: owns_def split: option.splits)

lemma owns_invariants: "owns b w \<Longrightarrow> invariants b"
  by (simp add: owns_def)

lemma addrs_iff: "a \<in> addrs p \<longleftrightarrow> p = Ptr a"
  by (cases p) auto

lemma deallocate_frame:
  assumes "deallocate p w = Some w'"
  shows "length (heap w') = length (heap w)" "\<forall>a. Ptr a \<noteq> p \<longrightarrow> lookup w' a = lookup w a"
  using assms
  by (auto simp: deallocate_def lookup_def split: ptr.splits option.splits if_splits)

lemma realloc_owned:
  assumes "owns b w" "realloc C n b w = Return dest w'" "alloc C w n \<noteq> ReturnsNull"
  shows "\<exists>d. dest = Ptr d \<and> d = length (heap w) \<and> length (heap w') = Suc (length (heap w))
       \<and> (\<exists>blk. lookup w' d = Some blk \<and> length blk = n)
       \<and> (\<forall>a < length (heap w). Ptr a \<noteq> m_data b \<longrightarrow> lookup w' a = lookup w a)"
proof -
  let ?w1 = "emit (Allocate n (length (heap w))) (w\<lparr>heap := heap w @ [Some (replicate n Raw)]\<rparr>)"
  define d where "d = length (heap w)"
  from assms(2,3) obtain w2 w3 where
    dest: "dest = Ptr d" and
    mv: "move_loop (m_data b) (Ptr d) 0 (m_size b) ?w1 = Some w2" and
    ds: "destruct C b w2 = Some w3" and
    de: "dealloc b w3 = Some w'"
    by (auto simp: realloc_def allocate_def d_def split: alloc_outcome.splits option.splits)
  have d: "d = length (heap w)" by (rule d_def)
  have o12: "only (addrs (m_data b) \<union> {d}) ?w1 w2"
    using move_loop_only[OF mv] by simp
  have "only (addrs (m_data b)) w2 w3"
    using ds by (auto simp: destruct_def split: if_splits intro: destruct_loop_only)
  then have o23: "only (addrs (m_data b) \<union> {d}) w2 w3"
    by (rule only_mono) blast
  have o13: "only (addrs (m_data b) \<union> {d}) ?w1 w3"
    using o12 o23 by (rule only_trans)
  have nd: "Ptr d \<noteq> m_data b"
    using owns_Ptr[OF assms(1), of d] d by (auto dest: lookup_Some_less)
  have len: "length (heap w') = Suc (length (heap w))"
    using deallocate_frame(1)[OF de[unfolded dealloc_def]] o13 by (simp add: only_def)
  have "map_option length (lookup w3 d) = map_option length (lookup ?w1 d)"
    using o13 by (simp add: only_def)
  also have "lookup ?w1 d = Some (replicate n Raw)"
    using d by (simp add: lookup_def)
  finally obtain blk where blk: "lookup w3 d = Some blk" "length blk = n"
    by auto
  have ld: "lookup w' d = Some blk"
    using deallocate_frame(2)[OF de[unfolded dealloc_def]] nd blk by simp
  have others: "lookup w' a = lookup w a" if "a < length (heap w)" "Ptr a \<noteq> m_data b" for a
  proof -
    have "a \<notin> addrs (m_data b) \<union> {d}" using that d by (simp add: addrs_iff)
    then have "lookup w3 a = lookup ?w1 a" using o13 by (simp add: only_def)
    also have "\<dots> = lookup w a" using that by (simp add: lookup_def nth_append)
    finally show ?thesis
      using deallocate_frame(2)[OF de[unfolded dealloc_def]] that by simp
  qed
  show ?thesis using dest d len ld blk others by blast
qed

lemma realloc_Throw: "realloc C n b w = Throw e w' \<Longrightarrow> w' = emit (AllocateFailed n) w"
  by (auto simp: realloc_def allocate_def split: alloc_outcome.splits option.splits)

lemma frame_refl [simp]: "frame p w w"
  by (simp add: frame_def)

lemma frame_emit [simp]: "frame p w (emit e w)"
  by (simp add: frame_def)

lemma owns_emit [simp]: "owns b (emit e w) = owns b w"
  by (auto simp: owns_def split: ptr.splits option.splits)

lemma step_ok_refl: "owns b w \<Longrightarrow> step_ok b w b w"
  by (simp add: step_ok_def)

lemma step_ok_trans:
  assumes "step_ok b w b1 w1" "step_ok b1 w1 b2 w2"
  shows "step_ok b w b2 w2"
proof -
  have l: "length (heap w) \<le> length (heap w1)" "length (heap w1) \<le> length (heap w2)"
    using assms by (simp_all add: step_ok_def frame_def)
  have p1: "m_data b1 = m_data b \<or> (\<exists>a \<ge> length (heap w). m_data b1 = Ptr a)"
    using assms(1) by (simp add: step_ok_def)
  have p2: "m_data b2 = m_data b1 \<or> (\<exists>a \<ge> length (heap w1). m_data b2 = Ptr a)"
    using assms(2) by (simp add: step_ok_def)
  have "map_option length (lookup w2 a) = map_option length (lookup w a)"
    if "a < length (heap w)" "Ptr a \<noteq> m_data b" for a
  proof -
    have 1: "map_option length (lookup w1 a) = map_option length (lookup w a)"
      using assms(1) that by (simp add: step_ok_def frame_def)
    have "Ptr a \<noteq> m_data b1" using p1 that by auto
    then have "map_option length (lookup w2 a) = map_option length (lookup w1 a)"
      using assms(2) that l by (simp add: step_ok_def frame_def)
    with 1 show ?thesis by simp
  qed
  moreover have "m_data b2 = m_data b \<or> (\<exists>a \<ge> length (heap w). m_data b2 = Ptr a)"
    using p1 p2 l by (metis le_trans)
  ultimately show ?thesis
    using assms(2) l by (simp add: step_ok_def frame_def)
qed

lemma reserve_step:
  assumes "owns b w" "reserve C n b w = Return u (b', w')" "alloc C w n \<noteq> ReturnsNull"
  shows "step_ok b w b' w'"
proof (cases "m_reserved b < n")
  case True
  with assms(2) obtain dest where r: "realloc C n b w = Return dest w'"
      and b0: "b' = b\<lparr>m_data := dest, m_reserved := n\<rparr>"
    by (auto simp: reserve_def split: result.splits)
  from realloc_owned[OF assms(1) r assms(3)] obtain d blk where
    f: "dest = Ptr d" "d = length (heap w)" "length (heap w') = Suc (length (heap w))"
       "lookup w' d = Some blk" "length blk = n"
       "\<forall>a < length (heap w). Ptr a \<noteq> m_data b \<longrightarrow> lookup w' a = lookup w a"
    by blast
  have b': "b' = b\<lparr>m_data := Ptr d, m_reserved := n\<rparr>"
    using b0 f(1) by simp
  have "invariants b'"
    using owns_invariants[OF assms(1)] True b' by (auto simp: invariants_def)
  then show ?thesis
    using f b' by (simp add: step_ok_def owns_def frame_def)
next
  case False
  with assms(1,2) show ?thesis by (simp add: reserve_def step_ok_refl)
qed

lemma reserve_Throw_world:
  "reserve C n b w = Throw e (b', w') \<Longrightarrow> b' = b \<and> w' = emit (AllocateFailed n) w"
  by (auto simp: reserve_def split: if_splits result.splits dest: realloc_Throw)

lemma only_step:
  assumes "owns b w" "only A w w'" "m_data b' = m_data b"
    "m_reserved b' = m_reserved b" "m_size b' \<le> m_reserved b'"
  shows "step_ok b w b' w'"
proof -
  have "invariants b'"
    using owns_invariants[OF assms(1)] assms(3,4,5) by (simp add: invariants_def)
  moreover have "\<exists>blk. lookup w' a = Some blk \<and> length blk = m_reserved b'" if "m_data b = Ptr a" for a
  proof -
    from owns_Ptr[OF assms(1) that] obtain blk where "lookup w a = Some blk" "length blk = m_reserved b"
      by auto
    moreover have "map_option length (lookup w' a) = map_option length (lookup w a)"
      using assms(2) by (simp add: only_def)
    ultimately show ?thesis using assms(4) by auto
  qed
  moreover have "frame (m_data b) w w'"
    using assms(2) by (simp add: frame_def only_def)
  ultimately show ?thesis
    using assms(3) by (auto simp: step_ok_def owns_def split: ptr.splits)
qed

lemma push_no_checks_step:
  assumes "owns b w" "push_no_checks m x b w = Return u (b', w')"
  shows "step_ok b w b' w'"
proof -
  from assms(2) have p: "construct_from m (m_data b) (m_size b) x w = Some w'"
    and b': "b' = b\<lparr>m_size := m_size b + 1\<rparr>"
    by (auto simp: push_no_checks_def split: option.splits)
  from construct_from_bound[OF p] obtain a blk where
    a: "m_data b = Ptr a" "lookup w a = Some blk" "m_size b < length blk"
    by auto
  have "length blk = m_reserved b" using owns_Ptr[OF assms(1) a(1)] a(2) by simp
  then show ?thesis
    using a b' by (intro only_step[OF assms(1) construct_from_only[OF p]]) simp_all
qed

lemma insert_with_step_ok:
  assumes "owns b w"
    "insert_with C m x b w = Return u (b', w') \<or> insert_with C m x b w = Throw e (b', w')"
    "\<forall>w n. alloc C w n \<noteq> ReturnsNull"
  shows "step_ok b w b' w'"
proof (cases "grow_if_needed C b w")
  case (Return u1 s1)
  obtain b1 w1 where s1: "s1 = (b1, w1)" by (cases s1)
  have 1: "step_ok b w b1 w1"
  proof (cases "m_size b = m_reserved b")
    case True
    then have "reserve C (growth C (m_size b)) b (emit (Grow (m_size b)) w) = Return u1 (b1, w1)"
      using Return s1 by (simp add: grow_if_needed_def)
    from reserve_step[OF _ this] assms(1,3) have "step_ok b (emit (Grow (m_size b)) w) b1 w1"
      by simp
    then show ?thesis
      by (simp add: step_ok_def frame_def)
  next
    case False
    then show ?thesis using Return s1 assms(1) by (simp add: grow_if_needed_def step_ok_refl)
  qed
  then have o1: "owns b1 w1" by (simp add: step_ok_def)
  have "push_no_checks m x b1 w1 = Return u (b', w')"
    using assms(2) Return s1 by (auto simp: insert_with_def push_no_checks_Throw)
  from push_no_checks_step[OF o1 this] 1 show ?thesis
    by (rule step_ok_trans[rotated])
next
  case (Throw e1 s1)
  then have "insert_with C m x b w = Throw e1 s1" by (simp add: insert_with_def)
  moreover from Throw have "s1 = (b, emit (AllocateFailed (growth C (m_size b))) (emit (Grow (m_size b)) w))"
    by (cases s1) (auto simp: grow_if_needed_def split: if_splits dest: reserve_Throw_world)
  ultimately show ?thesis
    using assms(1,2) by (auto simp: step_ok_def frame_def)
next
  case Undefined
  then show ?thesis using assms(2) by (simp add: insert_with_def)
qed

lemma clear_step:
  assumes "owns b w" "clear C b w = Return u (b', w') \<or> clear C b w = Throw e (b', w')"
  shows "step_ok b w b' w'"
proof -
  have "step_ok b w (b\<lparr>m_size := 0\<rparr>) w"
    by (intro only_step[OF assms(1)]) simp_all
  then show ?thesis using assms(2) by (auto simp: clear_eq)
qed

lemma reserve_step_ok:
  assumes "owns b w" "reserve C n b w = Return u (b', w') \<or> reserve C n b w = Throw e (b', w')"
    "\<forall>w n. alloc C w n \<noteq> ReturnsNull"
  shows "step_ok b w b' w'"
  using assms(2)
proof
  assume r: "reserve C n b w = Return u (b', w')"
  have "alloc C w n \<noteq> ReturnsNull" using assms(3) by simp
  with assms(1) r show ?thesis by (rule reserve_step)
next
  assume "reserve C n b w = Throw e (b', w')"
  then have "b' = b \<and> w' = emit (AllocateFailed n) w" by (rule reserve_Throw_world)
  then show ?thesis using assms(1) by (simp add: step_ok_def)
qed

lemma resize_step:
  assumes "owns b w" "resize C n b w = Return u (b', w') \<or> resize C n b w = Throw e (b', w')"
    "\<forall>w n. alloc C w n \<noteq> ReturnsNull"
  shows "step_ok b w b' w'"
proof (cases "reserve C n b w")
  case (Return u1 s1)
  obtain b1 w1 where s1: "s1 = (b1, w1)" by (cases s1)
  have nn: "alloc C w n \<noteq> ReturnsNull" using assms(3) by simp
  have 1: "step_ok b w b1 w1"
    using reserve_step[OF assms(1) _ nn] Return s1 by simp
  then have o1: "owns b1 w1" by (simp add: step_ok_def)
  have n: "n \<le> m_reserved b1"
    using reserve_Return_invariants[OF owns_invariants[OF assms(1)] _ nn] Return s1 by blast
  from assms(2) Return s1 have c: "construct_loop (default_value C) (m_data b1) (m_size b1) n w1 = Some w'"
      and b': "b' = b1\<lparr>m_size := n\<rparr>"
    by (auto simp: resize_def split: option.splits)
  have "step_ok b1 w1 b' w'"
    using n b' by (intro only_step[OF o1 construct_loop_only[OF c]]) simp_all
  with 1 show ?thesis by (rule step_ok_trans)
next
  case (Throw e1 s1)
  then show ?thesis
    using assms(1,2) by (cases s1) (auto simp: resize_def step_ok_def dest!: reserve_Throw_world)
next
  case Undefined
  then show ?thesis using assms(2) by (simp add: resize_def)
qed

lemma owns_Buffer [simp]: "owns Buffer w"
  by (simp add: owns_def)

lemma Buffer_sized_step:
  assumes "Buffer_sized C n w = Return u (b', w')" "\<forall>w n. alloc C w n \<noteq> ReturnsNull"
  shows "step_ok Buffer w b' w'"
proof -
  have "resize C n Buffer w = Return u (b', w')"
    using assms(1) by (auto simp: Buffer_sized_def dest!: unwind_Return)
  then have "resize C n Buffer w = Return u (b', w') \<or> resize C n Buffer w = Throw AllocationFailure (b', w')"
    by simp
  with owns_Buffer show ?thesis using assms(2) by (rule resize_step)
qed

lemma Buffer_range_step:
  assumes "Buffer_range C start len w = Return u (b', w')" "\<forall>w n. alloc C w n \<noteq> ReturnsNull"
  shows "step_ok Buffer w b' w'"
proof -
  from assms obtain u1 b1 w1 where r: "reserve C len Buffer w = Return u1 (b1, w1)"
      and m: "memcpy (sizeof_value C) (m_data b1) start len w1 = Some w'"
      and b': "b' = b1\<lparr>m_size := len\<rparr>"
    by (auto simp: Buffer_range_def dest!: unwind_Return split: result.splits option.splits)
  have nn: "alloc C w len \<noteq> ReturnsNull" using assms(2) by simp
  have 1: "step_ok Buffer w b1 w1"
    using reserve_step[OF owns_Buffer r nn] .
  then have o1: "owns b1 w1" by (simp add: step_ok_def)
  have n: "len \<le> m_reserved b1"
    using reserve_Return_invariants[OF invariants_Buffer r nn] by blast
  have "step_ok b1 w1 b' w'"
    using n b' by (intro only_step[OF o1 memcpy_only[OF m]]) simp_all
  with 1 show ?thesis by (rule step_ok_trans)
qed

lemma push_each_step:
  "owns b w \<Longrightarrow> push_each vs b w = Return u (b', w') \<Longrightarrow> step_ok b w b' w'"
proof (induction vs arbitrary: b w)
  case Nil
  then show ?case by (simp add: step_ok_refl)
next
  case (Cons v vs)
  from Cons.prems(2) obtain u1 b1 w1 where
    1: "push_no_checks Copy (Val v) b w = Return u1 (b1, w1)" and 2: "push_each vs b1 w1 = Return u (b', w')"
    by (auto split: result.splits)
  have s1: "step_ok b w b1 w1" using push_no_checks_step[OF Cons.prems(1) 1] .
  then have "owns b1 w1" by (simp add: step_ok_def)
  from Cons.IH[OF this 2] s1 show ?case by (rule step_ok_trans[rotated])
qed

lemma Buffer_list_step:
  assumes "Buffer_list C vs w = Return u (b', w')" "\<forall>w n. alloc C w n \<noteq> ReturnsNull"
  shows "step_ok Buffer w b' w'"
proof -
  from assms obtain u1 b1 w1 where r: "reserve C (length vs) Buffer w = Return u1 (b1, w1)"
      and p: "push_each vs b1 w1 = Return u (b', w')"
    by (auto simp: Buffer_list_def dest!: unwind_Return split: result.splits)
  have nn: "alloc C w (length vs) \<noteq> ReturnsNull" using assms(2) by simp
  have 1: "step_ok Buffer w b1 w1"
    using reserve_step[OF owns_Buffer r nn] .
  then have "owns b1 w1" by (simp add: step_ok_def)
  from push_each_step[OF this p] 1 show ?thesis by (rule step_ok_trans[rotated])
qed

lemma push_each_Throw: "push_each vs b w \<noteq> Throw e s"
  by (induction vs arbitrary: b w) (auto split: result.splits simp: push_no_checks_Throw)

lemma unwind_Throw:
  "unwind C r = Throw e (b', w') \<Longrightarrow> \<exists>w1. r = Throw e (b', w1) \<and> destructor C b' w1 = Return () w'"
  by (auto simp: unwind_def split: result.splits)

lemma constructor_Throw_heap:
  assumes "Buffer_sized C n w = Throw e (b', w') \<or> Buffer_range C start len w = Throw e (b', w')
         \<or> Buffer_list C vs w = Throw e (b', w')"
  shows "heap w' = heap w"
proof -
  have "\<exists>k. b' = Buffer \<and> destructor C b' (emit (AllocateFailed k) w) = Return () w'"
    using assms
    by (auto simp: Buffer_sized_def Buffer_range_def Buffer_list_def resize_def push_each_Throw
        dest!: unwind_Throw reserve_Throw_world split: result.splits option.splits)
  then show ?thesis
    by (auto simp: destructor_Buffer)
qed

lemma destructor_frame:
  assumes "destructor C b w = Return u w'"
  shows "frame (m_data b) w w'"
proof -
  from assms obtain w1 where d: "destruct C b w = Some w1" and e: "dealloc b w1 = Some w'"
    by (auto simp: destructor_def split: option.splits)
  have "only (addrs (m_data b)) w w1"
    using d by (auto simp: destruct_def split: if_splits intro: destruct_loop_only)
  then have "map_option length (lookup w1 a) = map_option length (lookup w a)"
      "length (heap w1) = length (heap w)" for a
    by (simp_all add: only_def)
  then show ?thesis
    using deallocate_frame[OF e[unfolded dealloc_def]]
    by (simp add: frame_def)
qed

lemma owns_frame:
  assumes "owns b w" "frame p w w'" "m_data b = Null \<or> m_data b \<noteq> p"
  shows "owns b w'"
proof (cases "m_data b")
  case Null
  then show ?thesis using assms(1) by (simp add: owns_def)
next
  case (Ptr a)
  from owns_Ptr[OF assms(1) Ptr] obtain blk where blk: "lookup w a = Some blk" "length blk = m_reserved b"
    by auto
  have "a < length (heap w)" using blk(1) by (rule lookup_Some_less)
  then have "map_option length (lookup w' a) = map_option length (lookup w a)"
    using assms(2,3) Ptr by (auto simp: frame_def)
  then obtain blk' where "lookup w' a = Some blk'" "length blk' = length blk"
    using blk(1) by auto
  then show ?thesis
    using assms(1) Ptr blk by (simp add: owns_def)
qed

lemma consistent_step:
  assumes "consistent st" "step_ok b (wld st) b' w'"
    "\<forall>u \<in> alive st. u \<noteq> v \<longrightarrow> m_data b = Null \<or> m_data (objs st u) \<noteq> m_data b"
  shows "consistent (st\<lparr>objs := (objs st)(v := b'), alive := insert v (alive st), wld := w'\<rparr>)"
proof -
  have fr: "frame (m_data b) (wld st) w'" and ob: "owns b' w'"
    and pt: "m_data b' = m_data b \<or> (\<exists>a \<ge> length (heap (wld st)). m_data b' = Ptr a)"
    using assms(2) by (simp_all add: step_ok_def)
  have others: "owns (objs st u) w'" if "u \<in> alive st" "u \<noteq> v" for u
  proof -
    have "owns (objs st u) (wld st)" using assms(1) that by (simp add: consistent_def)
    moreover have "m_data (objs st u) = Null \<or> m_data (objs st u) \<noteq> m_data b"
      using assms(3) that by (cases "m_data (objs st u)") auto
    ultimately show ?thesis using fr by (intro owns_frame[of "objs st u" "wld st" "m_data b" w'])
  qed
  have low: "a < length (heap (wld st))" if "u \<in> alive st" "m_data (objs st u) = Ptr a" for u a
  proof -
    have "owns (objs st u) (wld st)" using assms(1) that by (simp add: consistent_def)
    from owns_Ptr[OF this that(2)] show ?thesis by (auto dest: lookup_Some_less)
  qed
  have apart: "m_data b' = Null \<or> m_data (objs st u) \<noteq> m_data b'" if "u \<in> alive st" "u \<noteq> v" for u
    using pt assms(3) low[OF that(1)] that by (cases "m_data (objs st u)") auto
  have old: "m_data (objs st u) = Null \<or> m_data (objs st u) \<noteq> m_data (objs st x)"
    if "u \<in> alive st" "x \<in> alive st" "u \<noteq> x" for u x
    using assms(1) that by (simp add: consistent_def)
  show ?thesis
    unfolding consistent_def
  proof (intro conjI ballI impI)
    fix u assume "u \<in> alive (st\<lparr>objs := (objs st)(v := b'), alive := insert v (alive st), wld := w'\<rparr>)"
    then show "owns (objs (st\<lparr>objs := (objs st)(v := b'), alive := insert v (alive st), wld := w'\<rparr>) u)
                 (wld (st\<lparr>objs := (objs st)(v := b'), alive := insert v (alive st), wld := w'\<rparr>))"
      using ob others by (cases "u = v") auto
  next
    fix u x
    assume "u \<in> alive (st\<lparr>objs := (objs st)(v := b'), alive := insert v (alive st), wld := w'\<rparr>)"
      "x \<in> alive (st\<lparr>objs := (objs st)(v := b'), alive := insert v (alive st), wld := w'\<rparr>)"
      "u \<noteq> x"
    then show "m_data (objs (st\<lparr>objs := (objs st)(v := b'), alive := insert v (alive st), wld := w'\<rparr>) u) = Null
             \<or> m_data (objs (st\<lparr>objs := (objs st)(v := b'), alive := insert v (alive st), wld := w'\<rparr>) u)
               \<noteq> m_data (objs (st\<lparr>objs := (objs st)(v := b'), alive := insert v (alive st), wld := w'\<rparr>) x)"
      using apart old by (cases "u = v"; cases "x = v") (auto, metis+)
  qed
qed

lemma owns_same_heap:
  assumes "heap w' = heap w"
  shows "owns b w' = owns b w"
proof -
  have "lookup w' a = lookup w a" for a using assms by (simp add: lookup_def)
  then show ?thesis by (cases "m_data b") (simp_all add: owns_def)
qed

lemma consistent_same_heap:
  assumes "consistent st" "heap w' = heap (wld st)"
  shows "consistent (st\<lparr>wld := w'\<rparr>)"
proof -
  have "owns b w' = owns b (wld st)" for b
    using assms(2) by (rule owns_same_heap)
  then show ?thesis using assms(1) by (simp add: consistent_def)
qed

lemma call_consistent:
  assumes "consistent st"
    "call v f st = Return () st' \<or> call v f st = Throw e st'"
    "\<And>b w u b' w'. owns b w \<Longrightarrow> f b w = Return u (b', w') \<or> f b w = Throw e (b', w') \<Longrightarrow> step_ok b w b' w'"
  shows "consistent st'"
proof -
  have v: "v \<in> alive st" using assms(2) by (auto simp: call_def split: if_splits)
  then have o: "owns (objs st v) (wld st)" using assms(1) by (simp add: consistent_def)
  obtain u b' w' where r: "f (objs st v) (wld st) = Return u (b', w') \<or> f (objs st v) (wld st) = Throw e (b', w')"
    and st': "st' = st\<lparr>objs := (objs st)(v := b'), wld := w'\<rparr>"
    using assms(2) v by (auto simp: call_def split: result.splits)
  have s: "step_ok (objs st v) (wld st) b' w'" using assms(3)[OF o r] .
  have d: "\<forall>u \<in> alive st. u \<noteq> v \<longrightarrow> m_data (objs st v) = Null \<or> m_data (objs st u) \<noteq> m_data (objs st v)"
  proof (intro ballI impI)
    fix u assume "u \<in> alive st" "u \<noteq> v"
    then have "m_data (objs st v) = Null \<or> m_data (objs st v) \<noteq> m_data (objs st u)"
      using assms(1) v by (simp add: consistent_def)
    then show "m_data (objs st v) = Null \<or> m_data (objs st u) \<noteq> m_data (objs st v)"
      by auto
  qed
  have "insert v (alive st) = alive st" using v by (rule insert_absorb)
  then have "st\<lparr>objs := (objs st)(v := b'), alive := insert v (alive st), wld := w'\<rparr> = st'"
    unfolding st' by (cases st) simp
  with consistent_step[OF assms(1) s d] show ?thesis by (rule subst[rotated])
qed

lemma create_consistent:
  assumes "consistent st"
    "create v f st = Return () st' \<or> create v f st = Throw e st'"
    "\<And>w u b' w'. f w = Return u (b', w') \<Longrightarrow> step_ok Buffer w b' w'"
    "\<And>w b' w'. f w = Throw e (b', w') \<Longrightarrow> heap w' = heap w"
  shows "consistent st'"
  using assms(2)
proof
  assume "create v f st = Return () st'"
  then obtain u b' w' where r: "f (wld st) = Return u (b', w')"
    and st': "st' = st\<lparr>objs := (objs st)(v := b'), alive := insert v (alive st), wld := w'\<rparr>"
    by (auto simp: create_def split: if_splits result.splits)
  have "\<forall>u \<in> alive st. u \<noteq> v \<longrightarrow> m_data Buffer = Null \<or> m_data (objs st u) \<noteq> m_data Buffer"
    by simp
  from consistent_step[OF assms(1) assms(3)[OF r] this] show ?thesis
    unfolding st' .
next
  assume "create v f st = Throw e st'"
  then obtain b' w' where r: "f (wld st) = Throw e (b', w')" and st': "st' = st\<lparr>wld := w'\<rparr>"
    by (auto simp: create_def split: if_splits result.splits)
  show ?thesis
    unfolding st' using assms(1) assms(4)[OF r] by (rule consistent_same_heap)
qed

lemma move_consistent:
  assumes "consistent st" "r \<in> alive st"
  shows "consistent (st\<lparr>objs := (objs st)(t := objs st r, r := Buffer), alive := insert t (alive st)\<rparr>)"
proof -
  let ?o = "(objs st)(t := objs st r, r := Buffer)"
  have o: "owns (objs st u) (wld st)" if "u \<in> alive st" for u
    using assms(1) that by (simp add: consistent_def)
  have d: "m_data (objs st u) = Null \<or> m_data (objs st u) \<noteq> m_data (objs st x)"
    if "u \<in> alive st" "x \<in> alive st" "u \<noteq> x" for u x
    using assms(1) that by (simp add: consistent_def)
  have own: "owns (?o u) (wld st)" if "u \<in> insert t (alive st)" for u
    using that o assms(2) by (cases "u = r"; cases "u = t") simp_all
  have apart: "m_data (?o u) = Null \<or> m_data (?o u) \<noteq> m_data (?o x)"
    if "u \<in> insert t (alive st)" "x \<in> insert t (alive st)" "u \<noteq> x" for u x
  proof (cases "u = r")
    case True
    then show ?thesis by simp
  next
    case ur: False
    show ?thesis
    proof (cases "x = r")
      case True
      then show ?thesis using ur by (cases "m_data (?o u)") simp_all
    next
      case xr: False
      show ?thesis
      proof (cases "u = t")
        case True
        then have "x \<in> alive st" "x \<noteq> t" using that by auto
        then show ?thesis using True ur xr d[OF assms(2), of x] by simp
      next
        case ut: False
        then have u: "u \<in> alive st" using that by auto
        show ?thesis
        proof (cases "x = t")
          case True
          then show ?thesis using ut ur xr d[OF u assms(2)] by simp
        next
          case False
          then have "x \<in> alive st" using that by auto
          then show ?thesis using False ut ur xr d[OF u _ that(3)] by simp
        qed
      qed
    qed
  qed
  show ?thesis
    unfolding consistent_def using own apart by simp
qed

lemma delete_consistent:
  assumes "consistent st" "v \<in> alive st" "destructor C (objs st v) (wld st) = Return u w'"
  shows "consistent (st\<lparr>alive := alive st - {v}, wld := w'\<rparr>)"
proof -
  have fr: "frame (m_data (objs st v)) (wld st) w'"
    using assms(3) by (rule destructor_frame)
  have "owns (objs st x) w'" if "x \<in> alive st" "x \<noteq> v" for x
  proof -
    have "owns (objs st x) (wld st)" using assms(1) that by (simp add: consistent_def)
    moreover have "m_data (objs st x) = Null \<or> m_data (objs st x) \<noteq> m_data (objs st v)"
      using assms(1,2) that by (simp add: consistent_def)
    ultimately show ?thesis
      using fr by (intro owns_frame[of "objs st x" "wld st" "m_data (objs st v)" w'])
  qed
  then show ?thesis
    using assms(1) by (simp add: consistent_def)
qed

lemma destructor_no_Throw: "destructor C b w \<noteq> Throw e w'"
  by (auto simp: destructor_def split: option.splits)

lemma exec_consistent:
  assumes "consistent st" "exec C c st = Return () st' \<or> exec C c st = Throw e st'"
    "\<forall>w n. alloc C w n \<noteq> ReturnsNull"
  shows "consistent st'"
proof (cases c)
  case (NewDefault v)
  show ?thesis
  proof (rule create_consistent[OF assms(1), of v "\<lambda>w. Return () (Buffer, w)" st' e])
    show "create v (\<lambda>w. Return () (Buffer, w)) st = Return () st'
        \<or> create v (\<lambda>w. Return () (Buffer, w)) st = Throw e st'"
      using assms(2) NewDefault by simp
  next
    fix w :: "'a world" and u b' w'
    assume "Return () (Buffer, w) = Return u (b', w')"
    then show "step_ok Buffer w b' w'" by (auto simp: step_ok_refl)
  next
    fix w :: "'a world" and b' w'
    assume "Return () (Buffer, w) = Throw e (b', w')"
    then show "heap w' = heap w" by simp
  qed
next
  case (NewSized v n)
  show ?thesis
  proof (rule create_consistent[OF assms(1), of v "Buffer_sized C n" st' e])
    show "create v (Buffer_sized C n) st = Return () st' \<or> create v (Buffer_sized C n) st = Throw e st'"
      using assms(2) NewSized by simp
  next
    fix w u b' w'
    assume "Buffer_sized C n w = Return u (b', w')"
    then show "step_ok Buffer w b' w'" using assms(3) by (rule Buffer_sized_step)
  next
    fix w b' w'
    assume "Buffer_sized C n w = Throw e (b', w')"
    then show "heap w' = heap w" using constructor_Throw_heap[of C n w e b' w'] by simp
  qed
next
  case (NewRange v start len)
  show ?thesis
  proof (rule create_consistent[OF assms(1), of v "Buffer_range C start len" st' e])
    show "create v (Buffer_range C start len) st = Return () st'
        \<or> create v (Buffer_range C start len) st = Throw e st'"
      using assms(2) NewRange by simp
  next
    fix w u b' w'
    assume "Buffer_range C start len w = Return u (b', w')"
    then show "step_ok Buffer w b' w'" using assms(3) by (rule Buffer_range_step)
  next
    fix w b' w'
    assume "Buffer_range C start len w = Throw e (b', w')"
    then show "heap w' = heap w" using constructor_Throw_heap[of C _ w e b' w' start len] by simp
  qed
next
  case (NewList v vs)
  show ?thesis
  proof (rule create_consistent[OF assms(1), of v "Buffer_list C vs" st' e])
    show "create v (Buffer_list C vs) st = Return () st' \<or> create v (Buffer_list C vs) st = Throw e st'"
      using assms(2) NewList by simp
  next
    fix w u b' w'
    assume "Buffer_list C vs w = Return u (b', w')"
    then show "step_ok Buffer w b' w'" using assms(3) by (rule Buffer_list_step)
  next
    fix w b' w'
    assume "Buffer_list C vs w = Throw e (b', w')"
    then show "heap w' = heap w" using constructor_Throw_heap[of C _ w e b' w' _ _ vs] by simp
  qed
next
  case (NewMove v r)
  with assms(2) have a: "v \<notin> alive st" "r \<in> alive st"
    and st': "st' = st\<lparr>objs := move_ctor v r (objs st), alive := insert v (alive st)\<rparr>"
    by (auto split: if_splits)
  have "v \<noteq> r" using a by auto
  then show ?thesis
    unfolding st' using move_consistent[OF assms(1) a(2), of v] by (simp add: move_ctor_eq)
next
  case (MoveAssign v r)
  with assms(2) have a: "v \<in> alive st" "r \<in> alive st"
    and st': "st' = st\<lparr>objs := move_assign v r (objs st)\<rparr>"
    by (auto split: if_splits)
  show ?thesis
  proof (cases "v = r")
    case True
    then show ?thesis
      unfolding st' using move_consistent[OF assms(1) a(2), of r] a
      by (simp add: move_assign_eq insert_absorb)
  next
    case False
    then show ?thesis
      unfolding st' using move_consistent[OF assms(1) a(2), of v] a
      by (simp add: move_assign_eq insert_absorb)
  qed
next
  case (Push v x)
  show ?thesis
  proof (rule call_consistent[OF assms(1), of v "push C x" st' e])
    show "call v (push C x) st = Return () st' \<or> call v (push C x) st = Throw e st'"
      using assms(2) Push by simp
  qed (simp only: push_insert_with, rule insert_with_step_ok[OF _ _ assms(3)])
next
  case (PushRvalue v x)
  show ?thesis
  proof (rule call_consistent[OF assms(1), of v "push_rvalue C x" st' e])
    show "call v (push_rvalue C x) st = Return () st' \<or> call v (push_rvalue C x) st = Throw e st'"
      using assms(2) PushRvalue by simp
  qed (simp only: push_rvalue_insert_with, rule insert_with_step_ok[OF _ _ assms(3)])
next
  case (Emplace v m x)
  show ?thesis
  proof (rule call_consistent[OF assms(1), of v "emplace C m x" st' e])
    show "call v (emplace C m x) st = Return () st' \<or> call v (emplace C m x) st = Throw e st'"
      using assms(2) Emplace by simp
  qed (simp only: emplace_insert_with, rule insert_with_step_ok[OF _ _ assms(3)])
next
  case (Clear v)
  show ?thesis
  proof (rule call_consistent[OF assms(1), of v "clear C" st' e])
    show "call v (clear C) st = Return () st' \<or> call v (clear C) st = Throw e st'"
      using assms(2) Clear by simp
  qed (rule clear_step)
next
  case (Reserve v n)
  show ?thesis
  proof (rule call_consistent[OF assms(1), of v "reserve C n" st' e])
    show "call v (reserve C n) st = Return () st' \<or> call v (reserve C n) st = Throw e st'"
      using assms(2) Reserve by simp
  qed (rule reserve_step_ok[OF _ _ assms(3)])
next
  case (Resize v n)
  show ?thesis
  proof (rule call_consistent[OF assms(1), of v "resize C n" st' e])
    show "call v (resize C n) st = Return () st' \<or> call v (resize C n) st = Throw e st'"
      using assms(2) Resize by simp
  qed (rule resize_step[OF _ _ assms(3)])
next
  case (Delete v)
  with assms(2) obtain u w' where v: "v \<in> alive st"
    and d: "destructor C (objs st v) (wld st) = Return u w'"
    and st': "st' = st\<lparr>alive := alive st - {v}, wld := w'\<rparr>"
    by (auto split: if_splits result.splits simp: destructor_no_Throw)
  show ?thesis
    unfolding st' using assms(1) v d by (rule delete_consistent)
qed

lemma reachable_consistent:
  assumes "reachable C st" "\<forall>w n. alloc C w n \<noteq> ReturnsNull"
  shows "consistent st"
  using assms(1)
proof (induction rule: reachable.induct)
  case (start st)
  then show ?case by (simp add: consistent_def)
next
  case (step st c st')
  then show ?case using exec_consistent[of st C c st'] assms(2) by simp
next
  case (caught st c e st')
  then show ?case using exec_consistent[of st C c st' e] assms(2) by simp
qed

lemma consistent_invariants: "consistent st \<Longrightarrow> all_invariants st"
  by (simp add: consistent_def all_invariants_def owns_def)

section \<open>The claims\<close>

text \<open>
  C1. \<^verbatim>\<open>clear()\<close> is to destruct every live element, set the size to 0 and keep the
  capacity. The code sets \<^verbatim>\<open>_size = 0\<close> before it calls \<^verbatim>\<open>_destruct()\<close>, whose loop
  runs over \<^verbatim>\<open>[_data, _data + _size)\<close>: on a buffer holding the two elements 7 and 8 of
  a type with a destructor, \<open>clear\<close> returns with the size 0 and the capacity 4, but the
  trace gains no \<open>Destruct\<close> event and both objects are still alive in the storage.
\<close>

theorem clear_runs_no_destructor:
  "insert_all demo [ByCopy (Val 7), ByMove (Val 8)] Buffer fresh_world =
     Return () (\<lparr>m_data = Ptr 0, m_reserved = 4, m_size = 2\<rparr>,
                \<lparr>heap = [Some [Live 7, Live 8, Raw, Raw]],
                 trace = [Grow 0, Allocate 4 0, Deallocate Null, Construct 0 0, Construct 0 1]\<rparr>)
   \<and> clear demo \<lparr>m_data = Ptr 0, m_reserved = 4, m_size = 2\<rparr>
        \<lparr>heap = [Some [Live 7, Live 8, Raw, Raw]],
         trace = [Grow 0, Allocate 4 0, Deallocate Null, Construct 0 0, Construct 0 1]\<rparr> =
     Return () (\<lparr>m_data = Ptr 0, m_reserved = 4, m_size = 0\<rparr>,
                \<lparr>heap = [Some [Live 7, Live 8, Raw, Raw]],
                 trace = [Grow 0, Allocate 4 0, Deallocate Null, Construct 0 0, Construct 0 1]\<rparr>)"
  by code_simp

text \<open>
  C2. The range constructor is to copy \<open>length\<close> elements. The code passes the element
  count to \<^verbatim>\<open>memcpy\<close> as its byte count: for the two-byte element type and the source
  elements 513 and 1027, \<^verbatim>\<open>Buffer(start, 2)\<close> copies two bytes, which is the first
  element only, and returns a buffer of size 2 whose second slot is raw storage.
\<close>

theorem range_constructor_copies_length_bytes:
  "Buffer_range halfwords [513, 1027] 2 fresh_world =
     Return () (\<lparr>m_data = Ptr 0, m_reserved = 2, m_size = 2\<rparr>,
                \<lparr>heap = [Some [Live 513, Raw]],
                 trace = [Allocate 2 0, Deallocate Null, Memcpy (Ptr 0) 2]\<rparr>)
   \<and> elements \<lparr>m_data = Ptr 0, m_reserved = 2, m_size = 2\<rparr>
        \<lparr>heap = [Some [Live (513::nat), Raw]],
         trace = [Allocate 2 0, Deallocate Null, Memcpy (Ptr 0) 2]\<rparr> \<noteq> map Live [513, 1027]"
  by code_simp




text \<open>
  C4. Move construction of a new buffer \<open>t\<close> from \<open>r\<close>, and move assignment to an existing
  buffer \<open>t\<close> from another buffer \<open>r\<close>: afterwards \<open>t\<close> has the members \<open>r\<close> had, hence
  its size, capacity and, the storage being untouched, its elements; \<open>r\<close> is the empty
  buffer; and the destructor of \<open>r\<close> returns, destructs no element and leaves the storage
  as it is: what it does is to hand the null pointer to \<^verbatim>\<open>deallocate\<close>.
\<close>

theorem move_leaves_source_empty:
  assumes "r \<in> alive st" "t \<noteq> r"
    "(c = NewMove t r \<and> t \<notin> alive st) \<or> (c = MoveAssign t r \<and> t \<in> alive st)"
  shows "\<exists>st'. exec C c st = Return () st'
           \<and> objs st' t = objs st r \<and> objs st' r = Buffer \<and> wld st' = wld st
           \<and> elements (objs st' t) (wld st') = elements (objs st r) (wld st)
           \<and> t \<in> alive st' \<and> r \<in> alive st'
           \<and> exec C (Delete r) st' =
               Return () (st'\<lparr>alive := alive st' - {r}, wld := emit (Deallocate Null) (wld st')\<rparr>)"
  using assms by (auto simp: move_assign_eq move_ctor_eq destructor_Buffer)

theorem move_leaves_source_empty_witness:
  "1 \<in> alive two_buffers \<and> 0 \<in> alive two_buffers \<and> 2 \<notin> alive two_buffers
   \<and> (\<exists>st'. exec demo (MoveAssign 0 1) two_buffers = Return () st'
          \<and> objs st' 0 = \<lparr>m_data = Ptr 1, m_reserved = 2, m_size = 1\<rparr>
          \<and> objs st' 1 = \<lparr>m_data = Null, m_reserved = 0, m_size = 0\<rparr>
          \<and> elements (objs st' 0) (wld st') = [Live 9]
          \<and> exec demo (Delete 1) st' =
               Return () (st'\<lparr>alive := alive st' - {1}, wld := emit (Deallocate Null) (wld st')\<rparr>))
   \<and> (\<exists>st'. exec demo (NewMove 2 1) two_buffers = Return () st'
          \<and> objs st' 2 = \<lparr>m_data = Ptr 1, m_reserved = 2, m_size = 1\<rparr>
          \<and> objs st' 1 = \<lparr>m_data = Null, m_reserved = 0, m_size = 0\<rparr>
          \<and> elements (objs st' 2) (wld st') = [Live 9]
          \<and> exec demo (Delete 1) st' =
               Return () (st'\<lparr>alive := alive st' - {1}, wld := emit (Deallocate Null) (wld st')\<rparr>))"
proof -
  have a: "1 \<in> alive two_buffers" "0 \<in> alive two_buffers" "2 \<notin> alive two_buffers"
    by (simp_all add: two_buffers_def)
  have o: "objs two_buffers 1 = \<lparr>m_data = Ptr 1, m_reserved = 2, m_size = 1\<rparr>"
    by (simp add: two_buffers_def)
  have e: "elements (objs two_buffers 1) (wld two_buffers) = [Live 9]"
    by (simp add: two_buffers_def elements_def lookup_def)
  have n: "(0::nat) \<noteq> 1" "(2::nat) \<noteq> 1" by simp_all
  show ?thesis
    using a o e
      move_leaves_source_empty[OF a(1) n(1), of "MoveAssign 0 1" demo]
      move_leaves_source_empty[OF a(1) n(2), of "NewMove 2 1" demo]
    by (auto simp: Buffer_def)
qed

text \<open>
  C5, as stated, fails for an allocator that reports failure by the null pointer.
  \<^verbatim>\<open>_realloc\<close> does not test what \<^verbatim>\<open>allocate\<close> returned: on a well-formed buffer of
  capacity 4 holding 7 and 8, \<^verbatim>\<open>reserve(6)\<close> over such an allocator move-constructs the
  first element at the null pointer, which is undefined; the elements are not kept.
\<close>

theorem reserve_through_null_is_undefined:
  "wf \<lparr>m_data = Ptr 0, m_reserved = 4, m_size = 2\<rparr>
      \<lparr>heap = [Some [Live (7::nat), Live 8, Raw, Raw]], trace = []\<rparr>
   \<and> alloc nulls \<lparr>heap = [Some [Live (7::nat), Live 8, Raw, Raw]], trace = []\<rparr> 6 = ReturnsNull
   \<and> reserve nulls 6 \<lparr>m_data = Ptr 0, m_reserved = 4, m_size = 2\<rparr>
        \<lparr>heap = [Some [Live (7::nat), Live 8, Raw, Raw]], trace = []\<rparr> = Undefined"
  by code_simp

text \<open>
  C5, amended. On a well-formed buffer \<open>reserve(n)\<close> with \<open>n\<close> at most the capacity
  returns the buffer and the world as they were. When it has to allocate and the allocator
  does not answer with the null pointer, it never runs into undefined behaviour; when it
  returns, the capacity has not decreased and is at least \<open>n\<close>, the size is the same, the
  iteration range holds the same values in the same order and the buffer is well-formed;
  when the allocator refuses by an exception, the members and the storage are untouched.
  It returns whenever the allocator grants the request. When the allocator answers with
  the null pointer, \<open>reserve(n)\<close> on a buffer without elements returns with the null
  storage pointer and the capacity \<open>n\<close>, and on a buffer with elements it is undefined.
\<close>

theorem reserve_keeps_elements:
  assumes "wf b w"
  shows "(n \<le> m_reserved b \<longrightarrow> reserve C n b w = Return () (b, w))
       \<and> (n \<le> m_reserved b \<or> alloc C w n \<noteq> ReturnsNull \<longrightarrow>
            (case reserve C n b w of
               Return u (b', w') \<Rightarrow>
                 m_reserved b \<le> m_reserved b' \<and> n \<le> m_reserved b' \<and> m_size b' = m_size b
                 \<and> elements b' w' = elements b w \<and> wf b' w'
             | Throw e (b', w') \<Rightarrow> e = AllocationFailure \<and> b' = b \<and> heap w' = heap w
             | Undefined \<Rightarrow> False))
       \<and> (alloc C w n = Grants \<longrightarrow> (\<exists>b' w'. reserve C n b w = Return () (b', w')))
       \<and> (m_reserved b < n \<and> alloc C w n = ReturnsNull \<longrightarrow>
            (if m_size b = 0
             then \<exists>w'. reserve C n b w = Return () (b\<lparr>m_data := Null, m_reserved := n\<rparr>, w')
                    \<and> elements (b\<lparr>m_data := Null, m_reserved := n\<rparr>) w' = elements b w
             else reserve C n b w = Undefined))"
proof -
  consider (noop) "n \<le> m_reserved b"
    | (grow) "m_reserved b < n" "alloc C w n = Grants"
    | (fail) "m_reserved b < n" "alloc C w n = Throws"
    | (null) "m_reserved b < n" "alloc C w n = ReturnsNull"
    by (cases "alloc C w n") fastforce+
  then show ?thesis
  proof cases
    case noop
    then show ?thesis using assms by (simp add: reserve_noop)
  next
    case grow
    then show ?thesis
      using reserve_grow[OF assms grow, of ] wf_grown[OF assms grow(1), of C] elements_grown[OF assms, of n C]
      by simp
  next
    case fail
    then show ?thesis by (simp add: reserve_fail)
  next
    case null
    have "elements b w = []" if "m_size b = 0"
      using that by (simp add: elements_def split: ptr.splits option.splits)
    then show ?thesis
      using null reserve_null[OF assms null] by (simp add: elements_def)
  qed
qed

theorem reserve_keeps_elements_witness:
  "wf \<lparr>m_data = Ptr 0, m_reserved = 4, m_size = 2\<rparr> \<lparr>heap = [Some [Live (7::nat), Live 8, Raw, Raw]], trace = []\<rparr>
   \<and> alloc demo \<lparr>heap = [Some [Live (7::nat), Live 8, Raw, Raw]], trace = []\<rparr> 6 = Grants
   \<and> reserve demo 3 \<lparr>m_data = Ptr 0, m_reserved = 4, m_size = 2\<rparr> \<lparr>heap = [Some [Live 7, Live 8, Raw, Raw]], trace = []\<rparr>
       = Return () (\<lparr>m_data = Ptr 0, m_reserved = 4, m_size = 2\<rparr>, \<lparr>heap = [Some [Live 7, Live 8, Raw, Raw]], trace = []\<rparr>)
   \<and> (\<exists>b' w'. reserve demo 6 \<lparr>m_data = Ptr 0, m_reserved = 4, m_size = 2\<rparr> \<lparr>heap = [Some [Live 7, Live 8, Raw, Raw]], trace = []\<rparr>
                = Return () (b', w')
          \<and> 4 \<le> m_reserved b' \<and> 6 \<le> m_reserved b' \<and> m_size b' = 2
          \<and> elements b' w' = [Live 7, Live 8] \<and> wf b' w')
   \<and> wf Buffer fresh_world \<and> m_reserved Buffer < 6 \<and> alloc nulls fresh_world 6 = ReturnsNull
   \<and> m_size Buffer = 0
   \<and> (\<exists>w'. reserve nulls 6 Buffer fresh_world = Return () (Buffer\<lparr>m_data := Null, m_reserved := 6\<rparr>, w'))"
proof -
  let ?b = "\<lparr>m_data = Ptr 0, m_reserved = 4, m_size = 2\<rparr>"
  let ?w = "\<lparr>heap = [Some [Live (7::nat), Live 8, Raw, Raw]], trace = []\<rparr>"
  have w: "wf ?b ?w" by code_simp
  have a: "alloc demo ?w 6 = Grants" by (simp add: demo_def)
  have e: "elements ?b ?w = [Live 7, Live 8]" by code_simp
  have n: "alloc nulls fresh_world 6 = ReturnsNull" by (simp add: nulls_def demo_def)
  show ?thesis
    using w a e n reserve_keeps_elements[OF w, of 3 demo] reserve_keeps_elements[OF w, of 6 demo]
      reserve_keeps_elements[OF wf_Buffer, of 6 nulls fresh_world]
    by (auto split: result.splits)
qed




text \<open>
  C7, as stated, fails for an allocator that reports failure by the null pointer.
  \<^verbatim>\<open>reserve\<close> does not test what \<^verbatim>\<open>allocate\<close> returned: on an empty buffer
  \<^verbatim>\<open>reserve(6)\<close> then returns normally, with the null storage pointer and the capacity 6.
  The failure has not reached the caller and the buffer is not in its pre-call state.
\<close>

theorem reserve_swallows_null_allocation:
  "alloc nulls fresh_world 6 = ReturnsNull
   \<and> reserve nulls 6 Buffer fresh_world =
       Return () (\<lparr>m_data = Null, m_reserved = 6, m_size = 0\<rparr>,
                  \<lparr>heap = [], trace = [AllocateNull 6, Deallocate Null]\<rparr>)"
  by code_simp

text \<open>
  C7, amended. When \<open>reserve(n)\<close> has to allocate and the allocator reports its failure
  by an exception, the call ends with that exception and nothing else has happened: the
  members are the same, the storage is the same, so are the elements, and the trace has
  gained the failed request only.
\<close>

theorem reserve_allocation_failure:
  assumes "m_reserved b < n" "alloc C w n = Throws"
  shows "\<exists>w'. reserve C n b w = Throw AllocationFailure (b, w') \<and> heap w' = heap w
              \<and> elements b w' = elements b w \<and> trace w' = trace w @ [AllocateFailed n]"
  using assms by (simp add: reserve_fail)

theorem reserve_allocation_failure_witness:
  "m_reserved \<lparr>m_data = Ptr 0, m_reserved = 4, m_size = 2\<rparr> < 6
   \<and> alloc limited \<lparr>heap = [Some [Live (7::nat), Live 8, Raw, Raw]], trace = []\<rparr> 6 = Throws
   \<and> reserve limited 6 \<lparr>m_data = Ptr 0, m_reserved = 4, m_size = 2\<rparr>
        \<lparr>heap = [Some [Live 7, Live 8, Raw, Raw]], trace = []\<rparr>
      = Throw AllocationFailure (\<lparr>m_data = Ptr 0, m_reserved = 4, m_size = 2\<rparr>,
          \<lparr>heap = [Some [Live 7, Live 8, Raw, Raw]], trace = [AllocateFailed 6]\<rparr>)"
proof -
  let ?b = "\<lparr>m_data = Ptr 0, m_reserved = 4, m_size = 2\<rparr>"
  let ?w = "\<lparr>heap = [Some [Live (7::nat), Live 8, Raw, Raw]], trace = []\<rparr>"
  have r: "m_reserved ?b < 6" by simp
  have a: "alloc limited ?w 6 = Throws" by (simp add: limited_def demo_def)
  show ?thesis
    using r a reserve_allocation_failure[OF r a] by auto
qed

text \<open>
  C8. With \<^verbatim>\<open>RDX_DEBUG\<close> defined, both \<^verbatim>\<open>operator[]\<close> overloads raise \<open>OutOfBounds\<close> for
  every index from the size on, the index equal to the size included, and leave buffer and
  world as they were; for an index below the size of a well-formed buffer they return the
  reference to that position, which designates the live element the iteration range has
  there.
\<close>

theorem index_checked_in_debug:
  assumes "rdx_debug C"
  shows "(m_size b \<le> index \<longrightarrow>
            index_op C index b w = Throw OutOfBounds (b, w)
            \<and> index_op_const C index b w = Throw OutOfBounds (b, w))
       \<and> (index < m_size b \<and> wf b w \<longrightarrow>
            (\<exists>a v. m_data b = Ptr a
               \<and> index_op C index b w = Return (a, index) (b, w)
               \<and> index_op_const C index b w = Return (a, index) (b, w)
               \<and> deref w (a, index) = Some (Live v) \<and> elements b w ! index = Live v))"
proof (intro conjI impI)
  assume "m_size b \<le> index"
  then show "index_op C index b w = Throw OutOfBounds (b, w)"
    using assms by (simp add: index_op_def)
next
  assume "m_size b \<le> index"
  then show "index_op_const C index b w = Throw OutOfBounds (b, w)"
    using assms by (simp add: index_op_const_def)
next
  assume h: "index < m_size b \<and> wf b w"
  then obtain a where a: "m_data b = Ptr a"
    by (cases "m_data b") (auto simp: wf_def)
  from wf_Ptr[OF _ a] h obtain blk where blk: "lookup w a = Some blk"
    "length blk = m_reserved b" "m_size b \<le> m_reserved b" "list_all is_live (take (m_size b) blk)"
    by auto
  have "is_live (blk ! index)"
    using blk h by (intro list_all_take_nth[of is_live "m_size b" blk index]) auto
  then obtain v where v: "blk ! index = Live v"
    by (cases "blk ! index") auto
  show "\<exists>a v. m_data b = Ptr a
               \<and> index_op C index b w = Return (a, index) (b, w)
               \<and> index_op_const C index b w = Return (a, index) (b, w)
               \<and> deref w (a, index) = Some (Live v) \<and> elements b w ! index = Live v"
    using a blk h v
    by (intro exI[of _ a] exI[of _ v]) (simp add: index_op_def index_op_const_def deref_def elements_def)
qed

theorem index_checked_in_debug_witness:
  "rdx_debug demo
   \<and> wf \<lparr>m_data = Ptr 0, m_reserved = 4, m_size = 2\<rparr> \<lparr>heap = [Some [Live (7::nat), Live 8, Raw, Raw]], trace = []\<rparr>
   \<and> index_op demo 2 \<lparr>m_data = Ptr 0, m_reserved = 4, m_size = 2\<rparr> \<lparr>heap = [Some [Live (7::nat), Live 8, Raw, Raw]], trace = []\<rparr>
      = Throw OutOfBounds (\<lparr>m_data = Ptr 0, m_reserved = 4, m_size = 2\<rparr>, \<lparr>heap = [Some [Live 7, Live 8, Raw, Raw]], trace = []\<rparr>)
   \<and> index_op demo 1 \<lparr>m_data = Ptr 0, m_reserved = 4, m_size = 2\<rparr> \<lparr>heap = [Some [Live (7::nat), Live 8, Raw, Raw]], trace = []\<rparr>
      = Return (0, 1) (\<lparr>m_data = Ptr 0, m_reserved = 4, m_size = 2\<rparr>, \<lparr>heap = [Some [Live 7, Live 8, Raw, Raw]], trace = []\<rparr>)
   \<and> deref \<lparr>heap = [Some [Live (7::nat), Live 8, Raw, Raw]], trace = []\<rparr> (0, 1) = Some (Live 8)"
proof -
  let ?b = "\<lparr>m_data = Ptr 0, m_reserved = 4, m_size = 2\<rparr>"
  let ?w = "\<lparr>heap = [Some [Live (7::nat), Live 8, Raw, Raw]], trace = []\<rparr>"
  have d: "rdx_debug demo" by (simp add: demo_def)
  have w: "wf ?b ?w" by code_simp
  have e: "elements ?b ?w ! 1 = Live 8" by code_simp
  show ?thesis
    using d w e index_checked_in_debug[OF d, of ?b 2 ?w] index_checked_in_debug[OF d, of ?b 1 ?w]
    by auto
qed

text \<open>
  C9, as stated, fails for an allocator that reports failure by the null pointer. The
  program that default-constructs a buffer and calls \<^verbatim>\<open>reserve(6)\<close> on it reaches, by
  public operations only and without an exception, a state whose buffer has the capacity 6
  and the null storage pointer.
\<close>

theorem null_allocation_breaks_invariant:
  "run nulls [NewDefault 0, Reserve 0 6] no_buffers = Return () null_reserved
   \<and> reachable nulls null_reserved
   \<and> 0 \<in> alive null_reserved
   \<and> m_data (objs null_reserved 0) = Null
   \<and> m_reserved (objs null_reserved 0) = 6"
proof -
  have r: "run nulls [NewDefault 0, Reserve 0 6] no_buffers = Return () null_reserved"
    by (simp add: create_def call_def no_buffers_def null_reserved_def fresh_world_def
        reserve_def realloc_def allocate_def destruct_def dealloc_def deallocate_def
        nulls_def demo_def emit_def Buffer_def)
  have "reachable nulls no_buffers"
    by (rule reachable.start) (simp add: no_buffers_def)
  then have "reachable nulls null_reserved"
    using r by (rule reachable_run)
  then show ?thesis
    using r by (simp add: null_reserved_def)
qed

text \<open>
  C9, amended. Over an allocator that never answers with the null pointer: a program
  starts with no buffer and runs constructors of every form, \<open>push\<close>, \<open>emplace\<close>,
  \<open>reserve\<close>, \<open>resize\<close>, \<open>clear\<close>, the two move operations and the destructor, with
  arguments of every kind, going on after an exception it catches. In every state it
  reaches, every buffer has its size at most its capacity and its storage pointer null
  exactly when its capacity is 0. Every operation preserves the two invariants together
  with what makes them stable, that each buffer with storage owns a block of exactly
  capacity slots and no two buffers own the same block (\<open>consistent\<close>); and under a growth
  policy that always returns more than its argument every operation preserves the two
  invariants by themselves (\<open>all_invariants\<close>).
\<close>

theorem reachable_buffers_keep_invariants:
  assumes "\<forall>w n. alloc C w n \<noteq> ReturnsNull"
  shows "(reachable C st \<longrightarrow>
      (\<forall>v \<in> alive st. m_size (objs st v) \<le> m_reserved (objs st v)
         \<and> (m_data (objs st v) = Null \<longleftrightarrow> m_reserved (objs st v) = 0)))
   \<and> (consistent st' \<and> (exec C c st' = Return () st'' \<or> exec C c st' = Throw e st'') \<longrightarrow>
        consistent st'')
   \<and> ((\<forall>s. s < growth C s) \<and> all_invariants st'
        \<and> (exec C c st' = Return () st'' \<or> exec C c st' = Throw e st'') \<longrightarrow>
        all_invariants st'')"
proof (intro conjI impI)
  assume "reachable C st"
  then have "consistent st" using assms by (rule reachable_consistent)
  then have "all_invariants st" by (rule consistent_invariants)
  then show "\<forall>v \<in> alive st. m_size (objs st v) \<le> m_reserved (objs st v)
               \<and> (m_data (objs st v) = Null \<longleftrightarrow> m_reserved (objs st v) = 0)"
    by (simp add: all_invariants_def invariants_def)
next
  assume "consistent st' \<and> (exec C c st' = Return () st'' \<or> exec C c st' = Throw e st'')"
  then show "consistent st''"
    using exec_consistent[of st' C c st'' e] assms by simp
next
  assume "(\<forall>s. s < growth C s) \<and> all_invariants st'
        \<and> (exec C c st' = Return () st'' \<or> exec C c st' = Throw e st'')"
  then show "all_invariants st''"
    using exec_preserves[of C st' c st'' e] assms by simp
qed

theorem reachable_buffers_keep_invariants_witness:
  "(\<forall>w n. alloc demo w n \<noteq> ReturnsNull) \<and> (\<forall>s. s < growth demo s)
   \<and> (\<exists>st. run demo [NewDefault 0, Push 0 (Val 7), NewList 1 [1, 2, 3], MoveAssign 0 1,
                     Resize 1 2, NewRange 2 [5, 6] 2, Clear 2, PushRvalue 1 (At 1 2)] no_buffers
              = Return () st
          \<and> reachable demo st
          \<and> alive st = {0, 1, 2}
          \<and> objs st 0 = \<lparr>m_data = Ptr 1, m_reserved = 3, m_size = 3\<rparr>
          \<and> m_size (objs st 0) \<le> m_reserved (objs st 0)
          \<and> (m_data (objs st 0) = Null) = (m_reserved (objs st 0) = 0)
          \<and> consistent st \<and> all_invariants st
          \<and> (\<exists>st'. exec demo (Emplace 0 Copy (Val 4)) st = Return () st'
                 \<and> objs st' 0 = \<lparr>m_data = Ptr 5, m_reserved = 6, m_size = 4\<rparr>
                 \<and> consistent st' \<and> all_invariants st'))"
proof -
  let ?cs = "[NewDefault 0, Push 0 (Val 7), NewList 1 [1, 2, 3], MoveAssign 0 1,
              Resize 1 2, NewRange 2 [5, 6] 2, Clear 2, PushRvalue 1 (At 1 2)]"
  have nn: "\<forall>w n. alloc demo w n \<noteq> ReturnsNull" by (simp add: demo_def)
  have g: "\<forall>s. s < growth demo s" by (simp add: doubling_grows)
  have ev: "case run demo ?cs no_buffers of
          Return u st \<Rightarrow>
            alive st = {0, 1, 2} \<and> objs st 0 = \<lparr>m_data = Ptr 1, m_reserved = 3, m_size = 3\<rparr>
            \<and> consistent st
            \<and> (case exec demo (Emplace 0 Copy (Val 4)) st of
                  Return u' st' \<Rightarrow> objs st' 0 = \<lparr>m_data = Ptr 5, m_reserved = 6, m_size = 4\<rparr>
                | Throw e st' \<Rightarrow> False
                | Undefined \<Rightarrow> False)
        | Throw e st \<Rightarrow> False
        | Undefined \<Rightarrow> False"
    by code_simp
  obtain st where st1: "run demo ?cs no_buffers = Return () st"
    using ev by (cases "run demo ?cs no_buffers") simp_all
  have st23: "alive st = {0, 1, 2}" "objs st 0 = \<lparr>m_data = Ptr 1, m_reserved = 3, m_size = 3\<rparr>"
    and con: "consistent st"
    using ev unfolding st1 by simp_all
  have ev': "case exec demo (Emplace 0 Copy (Val 4)) st of
                  Return u' st' \<Rightarrow> objs st' 0 = \<lparr>m_data = Ptr 5, m_reserved = 6, m_size = 4\<rparr>
                | Throw e st' \<Rightarrow> False
                | Undefined \<Rightarrow> False"
    using ev unfolding st1 by simp
  obtain st' where st4: "exec demo (Emplace 0 Copy (Val 4)) st = Return () st'"
    using ev' by (cases "exec demo (Emplace 0 Copy (Val 4)) st") simp_all
  have st5: "objs st' 0 = \<lparr>m_data = Ptr 5, m_reserved = 6, m_size = 4\<rparr>"
    using ev' unfolding st4 by simp
  have "reachable demo no_buffers"
    by (rule reachable.start) (simp add: no_buffers_def)
  then have reach: "reachable demo st"
    using st1 by (rule reachable_run)
  note inst = reachable_buffers_keep_invariants[OF nn, of st st "Emplace 0 Copy (Val 4)" st' AllocationFailure]
  have inv0: "\<forall>v \<in> alive st. m_size (objs st v) \<le> m_reserved (objs st v)
               \<and> (m_data (objs st v) = Null \<longleftrightarrow> m_reserved (objs st v) = 0)"
    using inst[THEN conjunct1] reach by (rule mp)
  then have inv: "all_invariants st"
    unfolding all_invariants_def invariants_def .
  have "consistent st \<and>
          (exec demo (Emplace 0 Copy (Val 4)) st = Return () st'
           \<or> exec demo (Emplace 0 Copy (Val 4)) st = Throw AllocationFailure st')"
    using con st4 by simp
  with inst[THEN conjunct2, THEN conjunct1] have con': "consistent st'"
    by (rule mp)
  have "(\<forall>s. s < growth demo s) \<and> all_invariants st \<and>
          (exec demo (Emplace 0 Copy (Val 4)) st = Return () st'
           \<or> exec demo (Emplace 0 Copy (Val 4)) st = Throw AllocationFailure st')"
    using g inv st4 by simp
  with inst[THEN conjunct2, THEN conjunct2] have inv': "all_invariants st'"
    by (rule mp)
  have "0 \<in> alive st" using st23(1) by simp
  with inv0 have i0: "m_size (objs st 0) \<le> m_reserved (objs st 0)
          \<and> (m_data (objs st 0) = Null) = (m_reserved (objs st 0) = 0)"
    by (rule bspec)
  show ?thesis
    apply (rule conjI[OF nn])
    apply (rule conjI[OF g])
    apply (rule exI[of _ st])
    apply (intro conjI st1 reach st23 con inv)
    using i0 apply simp
    using i0 apply simp
    apply (rule exI[of _ st'])
    apply (intro conjI st4 st5 con' inv')
    done
qed

text \<open>
  C10. Move assignment to a buffer \<open>t\<close> that owns the block \<open>a\<close> overwrites the members of
  \<open>t\<close> and does not touch the world: no destructor runs, \<^verbatim>\<open>deallocate\<close> is not called, the
  block stays allocated with its elements. When \<open>t\<close> was the only buffer holding \<open>a\<close>, no
  buffer holds it afterwards.
\<close>

theorem move_assignment_abandons_storage:
  assumes "t \<in> alive st" "r \<in> alive st" "m_data (objs st t) = Ptr a"
  shows "\<exists>st'. exec C (MoveAssign t r) st = Return () st'
           \<and> (t \<noteq> r \<longrightarrow> objs st' t = objs st r) \<and> objs st' r = Buffer
           \<and> alive st' = alive st \<and> wld st' = wld st
           \<and> ((\<forall>v \<in> alive st. v \<noteq> t \<longrightarrow> m_data (objs st v) \<noteq> Ptr a) \<longrightarrow>
                (\<forall>v \<in> alive st'. m_data (objs st' v) \<noteq> Ptr a))"
  using assms by (auto simp: move_assign_eq)

theorem move_assignment_abandons_storage_witness:
  "0 \<in> alive two_buffers \<and> 1 \<in> alive two_buffers \<and> m_data (objs two_buffers 0) = Ptr 0
   \<and> alive two_buffers = {0, 1} \<and> m_data (objs two_buffers 1) \<noteq> Ptr 0
   \<and> (\<exists>st'. exec demo (MoveAssign 0 1) two_buffers = Return () st'
          \<and> objs st' 0 = \<lparr>m_data = Ptr 1, m_reserved = 2, m_size = 1\<rparr>
          \<and> lookup (wld st') 0 = Some [Live 7, Live 8, Raw, Raw]
          \<and> trace (wld st') = []
          \<and> alive st' = {0, 1}
          \<and> m_data (objs st' 0) \<noteq> Ptr 0 \<and> m_data (objs st' 1) \<noteq> Ptr 0)"
proof -
  have a: "0 \<in> alive two_buffers" "1 \<in> alive two_buffers" "alive two_buffers = {0, 1}"
    by (simp_all add: two_buffers_def)
  have d: "m_data (objs two_buffers 0) = Ptr 0" "m_data (objs two_buffers 1) \<noteq> Ptr 0"
    by (simp_all add: two_buffers_def)
  have o: "objs two_buffers 1 = \<lparr>m_data = Ptr 1, m_reserved = 2, m_size = 1\<rparr>"
    by (simp add: two_buffers_def)
  have l: "lookup (wld two_buffers) 0 = Some [Live 7, Live 8, Raw, Raw]"
      "trace (wld two_buffers) = []"
    by (simp_all add: two_buffers_def lookup_def)
  show ?thesis
    using a d o l move_assignment_abandons_storage[OF a(1,2) d(1), of demo]
    by auto
qed

end
